theory Spec2Isabelle
  imports Main "HOL-Library.Sublist"
begin

section \<open>The bazinga plugin: incremental change detection for test runs\<close>

text \<open>
  A shallow embedding of \<^verbatim>\<open>bazinga/__init__.py\<close>. The plugin keeps seven
  dictionaries and sets as attributes of the plugin object; here they are the fields of
  a record that every method takes and returns. What the plugin asks of the outside
  world (file contents, \<^verbatim>\<open>isfile\<close>, snakefood's \<^verbatim>\<open>find_dependencies\<close>,
  \<^verbatim>\<open>inspect.getsourcefile\<close>, the pickled cache file) is a second record, the
  environment, which stays fixed while a run lasts.
\<close>

subsection \<open>Data\<close>

type_synonym path = string
type_synonym hash = string

text \<open>An object handed to \<^verbatim>\<open>wantModule\<close> or \<^verbatim>\<open>wantClass\<close>.\<close>

datatype pyobject = Module string | Class string

text \<open>
  The three ways the call of \<^verbatim>\<open>find_dependencies\<close> can end: it returns the pair
  \<^verbatim>\<open>(files, errors)\<close>, of which only the files are used; it raises
  \<^verbatim>\<open>TypeError\<close>, which the plugin catches; it raises anything else, which the
  plugin does not catch.
\<close>

datatype find_result = Found "path list" | Raises_TypeError | Raises_other

text \<open>
  The cache file at configure time: absent (\<^verbatim>\<open>isfile\<close> is false), present but
  \<^verbatim>\<open>load\<close> raises on it, or present and unpickled to a dictionary whose entries
  \<^verbatim>\<open>'hashes'\<close> and \<^verbatim>\<open>'graph'\<close> may each be there or not.
\<close>

datatype cache_file =
    No_file
  | Unloadable
  | Loaded "(path \<rightharpoonup> hash) option" "(path \<rightharpoonup> path list) option"

text \<open>
  The exceptions that leave a method of the plugin. \<open>TypeError\<close> is what
  \<^verbatim>\<open>inspect.getsourcefile\<close> raises for a built-in module or class;
  \<open>ResolverError\<close> stands for whatever else \<^verbatim>\<open>find_dependencies\<close> raises.
\<close>

datatype error =
    IOError path
  | KeyError string
  | UnboundLocalError string
  | UnpicklingError
  | ResolverError
  | TypeError

text \<open>
  \<^verbatim>\<open>inspect.getsourcefile\<close> has three ways to end: it raises (\<open>Inl\<close>, for a
  built-in object), it returns \<^verbatim>\<open>None\<close> (\<open>Inr None\<close>), or it returns a path.
\<close>

record env =
  file_md5 :: "path \<rightharpoonup> hash"
    \<comment> \<open>the md5 hexdigest of the bytes of a file, \<open>None\<close> where \<^verbatim>\<open>open\<close> or \<^verbatim>\<open>read\<close> raises\<close>
  isfile :: "path \<Rightarrow> bool"
  find_dependencies :: "path \<Rightarrow> find_result"
  getsourcefile :: "pyobject \<Rightarrow> error + path option"
  stored_cache :: cache_file
  hash_file_writable :: bool

text \<open>
  The attributes \<^verbatim>\<open>_graph\<close>, \<^verbatim>\<open>_hashes\<close>, \<^verbatim>\<open>_known_graph\<close>,
  \<^verbatim>\<open>_known_hashes\<close>, \<^verbatim>\<open>_failed_test_modules\<close>, \<^verbatim>\<open>_file_status\<close> and
  \<^verbatim>\<open>_ignored_files\<close> of the plugin, with \<open>s\<close> for \<^verbatim>\<open>self.\<close>. The last field
  is not in the source: it is a history of the calls of \<^verbatim>\<open>find_dependencies\<close>, each
  with the answer to "was the path in \<^verbatim>\<open>_ignored_files\<close> when the call was made",
  kept so that statements about which paths reach the resolver can be written down.
\<close>

record state =
  s_graph :: "path \<rightharpoonup> path list"
  s_hashes :: "path \<rightharpoonup> hash"
  s_known_graph :: "path \<rightharpoonup> path list"
  s_known_hashes :: "path \<rightharpoonup> hash"
  s_failed_test_modules :: "path set"
  s_file_status :: "path \<rightharpoonup> bool"
  s_ignored_files :: "path set"
  resolver_calls :: "(path \<times> bool) list"

text \<open>
  A method either raises or returns; the dictionaries are mutated in place, so the state
  reached so far survives an exception. The recursive methods take fuel, the depth of
  recursion they may use, and answer \<open>None\<close> when it runs out.
\<close>

datatype 'a outcome = Raise error state | Return 'a state

fun state_of :: "'a outcome \<Rightarrow> state" where
  "state_of (Raise e s) = s"
| "state_of (Return v s) = s"

definition initial :: state where
  "initial = \<lparr> s_graph = Map.empty, s_hashes = Map.empty, s_known_graph = Map.empty,
               s_known_hashes = Map.empty, s_failed_test_modules = {},
               s_file_status = Map.empty, s_ignored_files = {}, resolver_calls = [] \<rparr>"

subsection \<open>Hashing and the own-change test\<close>

definition file_hash :: "env \<Rightarrow> path \<Rightarrow> error + hash" where
  "file_hash env path =
     (case file_md5 env path of None \<Rightarrow> Inl (IOError path) | Some h \<Rightarrow> Inr h)"

definition differs :: "state \<Rightarrow> path \<Rightarrow> hash \<Rightarrow> bool" where
  \<comment> \<open>\<^verbatim>\<open>path not in self._known_hashes or hsh != self._known_hashes[path]\<close>\<close>
  "differs s path hsh =
     (case s_known_hashes s path of None \<Rightarrow> True | Some k \<Rightarrow> hsh \<noteq> k)"

definition fileChanged :: "env \<Rightarrow> path \<Rightarrow> state \<Rightarrow> bool outcome" where
  "fileChanged env path s =
     (case s_hashes s path of
        Some hsh \<Rightarrow> Return (differs s path hsh) s
      | None \<Rightarrow>
          (case file_hash env path of
             Inl e \<Rightarrow> Raise e s
           | Inr hsh \<Rightarrow>
               Return (differs s path hsh) (s\<lparr>s_hashes := (s_hashes s)(path \<mapsto> hsh)\<rparr>)))"

subsection \<open>The dependency resolver adapter\<close>

text \<open>The \<^verbatim>\<open>for f in files\<close> loop of \<^verbatim>\<open>inspectDependencies\<close>.\<close>

fun valid_files_loop :: "env \<Rightarrow> path list \<Rightarrow> path list \<Rightarrow> state \<Rightarrow> path list \<times> state" where
  "valid_files_loop env [] valid_files s = (valid_files, s)"
| "valid_files_loop env (f # files) valid_files s =
     (if \<not> isfile env f \<and> f \<notin> s_ignored_files s then
        valid_files_loop env files valid_files
          (s\<lparr>s_ignored_files := insert f (s_ignored_files s)\<rparr>)
      else if f \<in> s_ignored_files s then
        valid_files_loop env files valid_files s
      else
        valid_files_loop env files (valid_files @ [f]) s)"

text \<open>
  When \<^verbatim>\<open>find_dependencies\<close> raises \<^verbatim>\<open>TypeError\<close> the handler returns \<^verbatim>\<open>[]\<close>
  only inside its \<^verbatim>\<open>if path not in self._ignored_files\<close>. For a path already
  ignored the handler ends without returning, control reaches the loop, and the local
  \<^verbatim>\<open>files\<close> was never bound.
\<close>

definition inspectDependencies :: "env \<Rightarrow> path \<Rightarrow> state \<Rightarrow> path list outcome" where
  "inspectDependencies env path s =
     (let s0 = s\<lparr>resolver_calls := resolver_calls s @ [(path, path \<in> s_ignored_files s)]\<rparr>
      in case find_dependencies env path of
           Raises_TypeError \<Rightarrow>
             (if path \<notin> s_ignored_files s0 then
                Return [] (s0\<lparr>s_ignored_files := insert path (s_ignored_files s0)\<rparr>)
              else Raise (UnboundLocalError ''files'') s0)
         | Raises_other \<Rightarrow> Raise ResolverError s0
         | Found files \<Rightarrow>
             (case valid_files_loop env files [] s0 of
                (valid_files, s1) \<Rightarrow> Return valid_files s1))"

subsection \<open>The dependency graph store\<close>

fun updateGraph :: "nat \<Rightarrow> env \<Rightarrow> path \<Rightarrow> state \<Rightarrow> unit outcome option"
  and updateGraph_each :: "nat \<Rightarrow> env \<Rightarrow> path list \<Rightarrow> state \<Rightarrow> unit outcome option"
where
  "updateGraph 0 env path s = None"
| "updateGraph (Suc fuel) env path s =
     (if s_graph s path \<noteq> None then Some (Return () s)
      else
        (case fileChanged env path s of
           Raise e s1 \<Rightarrow> Some (Raise e s1)
         | Return changed s1 \<Rightarrow>
             (case (case (changed, s_known_graph s1 path) of
                      (False, Some files) \<Rightarrow> Return files s1
                    | _ \<Rightarrow> inspectDependencies env path s1) of
                Raise e s2 \<Rightarrow> Some (Raise e s2)
              | Return files s2 \<Rightarrow>
                  updateGraph_each fuel env files
                    (s2\<lparr>s_graph := (s_graph s2)(path \<mapsto> files)\<rparr>))))"
| "updateGraph_each fuel env [] s = Some (Return () s)"
| "updateGraph_each fuel env (f # files) s =
     (case updateGraph fuel env f s of
        None \<Rightarrow> None
      | Some (Raise e s1) \<Rightarrow> Some (Raise e s1)
      | Some (Return u s1) \<Rightarrow> updateGraph_each fuel env files s1)"

subsection \<open>The change detector\<close>

text \<open>
  \<^verbatim>\<open>any\<close> over the generator: children in \<^verbatim>\<open>new_parents\<close> are skipped, the
  others are asked in order, and the first \<^verbatim>\<open>True\<close> ends the loop.
\<close>

fun dependenciesChanged :: "nat \<Rightarrow> env \<Rightarrow> path \<Rightarrow> path list \<Rightarrow> state \<Rightarrow> bool outcome option"
  and any_changed :: "nat \<Rightarrow> env \<Rightarrow> path list \<Rightarrow> path list \<Rightarrow> state \<Rightarrow> bool outcome option"
where
  "dependenciesChanged 0 env path parents s = None"
| "dependenciesChanged (Suc fuel) env path parents s =
     (case s_file_status s path of
        Some status \<Rightarrow> Some (Return status s)
      | None \<Rightarrow>
          (case fileChanged env path s of
             Raise e s1 \<Rightarrow> Some (Raise e s1)
           | Return True s1 \<Rightarrow>
               Some (Return True (s1\<lparr>s_file_status := (s_file_status s1)(path \<mapsto> True)\<rparr>))
           | Return False s1 \<Rightarrow>
               (case s_graph s1 path of
                  None \<Rightarrow> Some (Raise (KeyError path) s1)
                | Some childs \<Rightarrow>
                    (case any_changed fuel env childs (parents @ [path]) s1 of
                       None \<Rightarrow> None
                     | Some (Raise e s2) \<Rightarrow> Some (Raise e s2)
                     | Some (Return changed s2) \<Rightarrow>
                         Some (Return changed
                           (s2\<lparr>s_file_status := (s_file_status s2)(path \<mapsto> changed)\<rparr>))))))"
| "any_changed fuel env [] new_parents s = Some (Return False s)"
| "any_changed fuel env (f # childs) new_parents s =
     (if f \<in> set new_parents then any_changed fuel env childs new_parents s
      else
        (case dependenciesChanged fuel env f new_parents s of
           None \<Rightarrow> None
         | Some (Raise e s1) \<Rightarrow> Some (Raise e s1)
         | Some (Return True s1) \<Rightarrow> Some (Return True s1)
         | Some (Return False s1) \<Rightarrow> any_changed fuel env childs new_parents s1))"

subsection \<open>The lifecycle hooks\<close>

definition configure :: "env \<Rightarrow> state \<Rightarrow> unit outcome" where
  "configure env s =
     (case stored_cache env of
        No_file \<Rightarrow> Return () s
      | Unloadable \<Rightarrow> Raise UnpicklingError s
      | Loaded hs gr \<Rightarrow>
          (case hs of
             None \<Rightarrow> Raise (KeyError ''hashes'') s
           | Some known_hashes \<Rightarrow>
               (case gr of
                  None \<Rightarrow> Raise (KeyError ''graph'') (s\<lparr>s_known_hashes := known_hashes\<rparr>)
                | Some known_graph \<Rightarrow>
                    Return () (s\<lparr>s_known_hashes := known_hashes,
                                 s_known_graph := known_graph\<rparr>))))"

record test =
  passed :: "bool option"
  address0 :: path

definition afterTest :: "test \<Rightarrow> state \<Rightarrow> state" where
  "afterTest t s =
     (if passed t = Some False then
        s\<lparr>s_failed_test_modules := insert (address0 t) (s_failed_test_modules s)\<rparr>
      else s)"

text \<open>
  \<^verbatim>\<open>d.setdefault(k, v)\<close> for every item of \<open>known\<close>: a key that \<open>d\<close> has keeps its
  value, a key that only \<open>known\<close> has is added. The keys of a dictionary are distinct,
  so the order of the items is immaterial. Likewise \<^verbatim>\<open>d.pop(m, None)\<close> for every
  \<open>m\<close> of a set.
\<close>

definition setdefault_items :: "('k \<rightharpoonup> 'v) \<Rightarrow> ('k \<rightharpoonup> 'v) \<Rightarrow> ('k \<rightharpoonup> 'v)" where
  "setdefault_items known d = (\<lambda>k. case d k of Some v \<Rightarrow> Some v | None \<Rightarrow> known k)"

definition pop_each :: "'k set \<Rightarrow> ('k \<rightharpoonup> 'v) \<Rightarrow> ('k \<rightharpoonup> 'v)" where
  "pop_each ms d = (\<lambda>k. if k \<in> ms then None else d k)"

record cache_data =
  hashes :: "path \<rightharpoonup> hash"
  graph_of :: "path \<rightharpoonup> path list"

text \<open>The value returned is the dictionary handed to \<^verbatim>\<open>dump\<close>.\<close>

definition finalize :: "env \<Rightarrow> state \<Rightarrow> cache_data outcome" where
  "finalize env s =
     (let s1 = s\<lparr>s_hashes := setdefault_items (s_known_hashes s) (s_hashes s)\<rparr>;
          s2 = s1\<lparr>s_graph := setdefault_items (s_known_graph s1) (s_graph s1)\<rparr>;
          s3 = s2\<lparr>s_hashes := pop_each (s_failed_test_modules s2) (s_hashes s2)\<rparr>
      in if hash_file_writable env then
           Return \<lparr>hashes = s_hashes s3, graph_of = s_graph s3\<rparr> s3
         else Raise (IOError ''.nosebazinga'') s3)"

text \<open>
  Both queries answer \<^verbatim>\<open>None\<close> (no opinion; \<open>None\<close> here) or \<^verbatim>\<open>False\<close> (do not
  collect this unit; \<open>Some False\<close> here). A method body that ends without
  \<^verbatim>\<open>return\<close> answers \<^verbatim>\<open>None\<close>. The call of \<^verbatim>\<open>inspect.getsourcefile\<close> has
  no handler: what it raises leaves the query, before any table is touched.
\<close>

definition wantModule :: "nat \<Rightarrow> env \<Rightarrow> pyobject \<Rightarrow> state \<Rightarrow> bool option outcome option" where
  "wantModule fuel env m s =
     (case getsourcefile env m of
        Inl e \<Rightarrow> Some (Raise e s)
      | Inr None \<Rightarrow> Some (Return None s)
      | Inr (Some source) \<Rightarrow>
          (case updateGraph fuel env source s of
             None \<Rightarrow> None
           | Some (Raise e s1) \<Rightarrow> Some (Raise e s1)
           | Some (Return u s1) \<Rightarrow>
               (case dependenciesChanged fuel env source [] s1 of
                  None \<Rightarrow> None
                | Some (Raise e s2) \<Rightarrow> Some (Raise e s2)
                | Some (Return changed s2) \<Rightarrow>
                    Some (Return (if \<not> changed then Some False else None) s2))))"

definition wantClass :: "nat \<Rightarrow> env \<Rightarrow> pyobject \<Rightarrow> state \<Rightarrow> bool option outcome option" where
  "wantClass fuel env cls s =
     (case getsourcefile env cls of
        Inl e \<Rightarrow> Some (Raise e s)
      | Inr None \<Rightarrow> Some (Return None s)
      | Inr (Some source) \<Rightarrow>
          (case updateGraph fuel env source s of
             None \<Rightarrow> None
           | Some (Raise e s1) \<Rightarrow> Some (Raise e s1)
           | Some (Return u s1) \<Rightarrow>
               (case dependenciesChanged fuel env source [] s1 of
                  None \<Rightarrow> None
                | Some (Raise e s2) \<Rightarrow> Some (Raise e s2)
                | Some (Return changed s2) \<Rightarrow>
                    Some (Return (if \<not> changed then Some False else None) s2))))"

subsection \<open>Runs\<close>

text \<open>
  The test runner calls the hooks in an order of its own choosing. A run is the list of
  these calls; each query comes with the recursion depth it is allowed. The state
  survives a call that raises, so a run goes on from the state the exception left.
\<close>

datatype event = WantModule nat pyobject | WantClass nat pyobject | AfterTest test

fun step :: "env \<Rightarrow> event \<Rightarrow> state \<Rightarrow> state option" where
  "step env (WantModule fuel m) s = map_option state_of (wantModule fuel env m s)"
| "step env (WantClass fuel cls) s = map_option state_of (wantClass fuel env cls s)"
| "step env (AfterTest t) s = Some (afterTest t s)"

fun run :: "env \<Rightarrow> event list \<Rightarrow> state \<Rightarrow> state option" where
  "run env [] s = Some s"
| "run env (ev # evs) s =
     (case step env ev s of None \<Rightarrow> None | Some s1 \<Rightarrow> run env evs s1)"

text \<open>The state in which the queries of a run begin: the one \<^verbatim>\<open>configure\<close> leaves.\<close>

definition started :: "env \<Rightarrow> state" where
  "started env = state_of (configure env initial)"

subsection \<open>Notions used in the proofs\<close>

text \<open>What a call gave back, when it returned.\<close>

fun returned :: "'a outcome option \<Rightarrow> 'a option" where
  "returned (Some (Return v s)) = Some v"
| "returned (Some (Raise e s)) = None"
| "returned None = None"

text \<open>
  The changed verdict for a source path, as a query computes it: \<^verbatim>\<open>updateGraph\<close>,
  then \<^verbatim>\<open>dependenciesChanged\<close> with no parents.
\<close>

definition verdict :: "nat \<Rightarrow> env \<Rightarrow> path \<Rightarrow> state \<Rightarrow> bool option" where
  "verdict fuel env source s =
     (case updateGraph fuel env source s of
        Some (Return u s1) \<Rightarrow> returned (dependenciesChanged fuel env source [] s1)
      | _ \<Rightarrow> None)"

text \<open>
  The body of \<^verbatim>\<open>updateGraph\<close> for a path not yet in the graph, up to and including
  \<^verbatim>\<open>self._graph[path] = files\<close>.
\<close>

definition edges_for :: "env \<Rightarrow> path \<Rightarrow> state \<Rightarrow> path list outcome" where
  "edges_for env path s =
     (case fileChanged env path s of
        Raise e s1 \<Rightarrow> Raise e s1
      | Return changed s1 \<Rightarrow>
          (case (case (changed, s_known_graph s1 path) of
                   (False, Some files) \<Rightarrow> Return files s1
                 | _ \<Rightarrow> inspectDependencies env path s1) of
             Raise e s2 \<Rightarrow> Raise e s2
           | Return files s2 \<Rightarrow>
               Return files (s2\<lparr>s_graph := (s_graph s2)(path \<mapsto> files)\<rparr>)))"

text \<open>The hash \<^verbatim>\<open>fileChanged\<close> compares: the cached one, else the one read from disk.\<close>

definition current_hash :: "env \<Rightarrow> state \<Rightarrow> path \<Rightarrow> hash option" where
  "current_hash env s p =
     (case s_hashes s p of Some h \<Rightarrow> Some h | None \<Rightarrow> file_md5 env p)"

text \<open>
  Within a run the graph, the hashes, the ignored files, the failed modules and the
  history of resolver calls only grow, and the loaded cache is left alone.
\<close>

definition grows :: "state \<Rightarrow> state \<Rightarrow> bool" where
  "grows s s' \<longleftrightarrow>
     s_known_graph s' = s_known_graph s \<and>
     s_known_hashes s' = s_known_hashes s \<and>
     s_failed_test_modules s \<subseteq> s_failed_test_modules s' \<and>
     s_graph s \<subseteq>\<^sub>m s_graph s' \<and>
     s_hashes s \<subseteq>\<^sub>m s_hashes s' \<and>
     s_ignored_files s \<subseteq> s_ignored_files s' \<and>
     prefix (resolver_calls s) (resolver_calls s')"

text \<open>
  The tables of a run tell the truth about the disk: a hash in \<^verbatim>\<open>_hashes\<close> is the
  digest of the file, and a path with an edge list has been hashed.
\<close>

definition sound_tables :: "env \<Rightarrow> state \<Rightarrow> bool" where
  "sound_tables env s \<longleftrightarrow>
     (\<forall>p h. s_hashes s p = Some h \<longrightarrow> file_md5 env p = Some h) \<and>
     (\<forall>p. s_graph s p \<noteq> None \<longrightarrow> s_hashes s p \<noteq> None)"

text \<open>
  What a run keeps true of the ignored files, on a disk where only regular files can be
  read: an ignored path has its edge list already or cannot be read, so it will not reach
  the resolver; no call of the resolver so far was on a path ignored at that time; a path
  is ignored because it is no regular file or because the resolver failed on it; and an
  edge list is the cached one or holds regular files only.
\<close>

definition resolver_discipline :: "env \<Rightarrow> state \<Rightarrow> bool" where
  "resolver_discipline env s \<longleftrightarrow>
     sound_tables env s \<and>
     (\<forall>p\<in>s_ignored_files s. s_graph s p \<noteq> None \<or> file_md5 env p = None) \<and>
     (\<forall>c\<in>set (resolver_calls s). \<not> snd c) \<and>
     (\<forall>p\<in>s_ignored_files s. \<not> isfile env p \<or> find_dependencies env p = Raises_TypeError) \<and>
     (\<forall>p fs. s_graph s p = Some fs \<longrightarrow>
        s_known_graph s p = Some fs \<or> (\<forall>f\<in>set fs. isfile env f))"

text \<open>A path without a known hash that was not judged unchanged so far.\<close>

definition never_known :: "path \<Rightarrow> state \<Rightarrow> bool" where
  "never_known M s \<longleftrightarrow> s_known_hashes s M = None \<and> s_file_status s M \<noteq> Some False"

text \<open>A cold state: no known hashes, and no file judged unchanged so far.\<close>

definition cold :: "state \<Rightarrow> bool" where
  "cold s \<longleftrightarrow> s_known_hashes s = Map.empty \<and> (\<forall>p. s_file_status s p \<noteq> Some False)"

text \<open>
  What a run keeps true of a file \<open>A\<close> that the cache records without dependencies and
  with the digest the file still has: its entries, where present, are the cached ones, it
  was never judged changed, and the resolver was never called on it.
\<close>

definition stable_leaf :: "env \<Rightarrow> path \<Rightarrow> state \<Rightarrow> bool" where
  "stable_leaf env A s \<longleftrightarrow>
     file_md5 env A \<noteq> None \<and> s_known_hashes s A = file_md5 env A \<and>
     (s_hashes s A = None \<or> s_hashes s A = file_md5 env A) \<and>
     s_known_graph s A = Some [] \<and>
     (s_graph s A = None \<or> s_graph s A = Some []) \<and>
     s_file_status s A \<noteq> Some True \<and>
     A \<notin> fst ` set (resolver_calls s)"

text \<open>
  What a run keeps true of two distinct files \<open>A\<close> and \<open>B\<close> that the cache records as
  each other's only dependency, with the digests they still have: their entries, where
  present, are the cached ones, the graph has both or neither, and neither was judged
  changed.
\<close>

definition unchanged_cycle :: "env \<Rightarrow> path \<Rightarrow> path \<Rightarrow> state \<Rightarrow> bool" where
  "unchanged_cycle env A B s \<longleftrightarrow>
     A \<noteq> B \<and>
     file_md5 env A \<noteq> None \<and> s_known_hashes s A = file_md5 env A \<and>
     file_md5 env B \<noteq> None \<and> s_known_hashes s B = file_md5 env B \<and>
     (s_hashes s A = None \<or> s_hashes s A = file_md5 env A) \<and>
     (s_hashes s B = None \<or> s_hashes s B = file_md5 env B) \<and>
     s_known_graph s A = Some [B] \<and> s_known_graph s B = Some [A] \<and>
     (s_graph s A = None \<and> s_graph s B = None \<or>
      s_graph s A = Some [B] \<and> s_graph s B = Some [A]) \<and>
     s_file_status s A \<noteq> Some True \<and> s_file_status s B \<noteq> Some True"

text \<open>
  What a run keeps true of a chain \<open>A \<rightarrow> B \<rightarrow> C\<close> from the cache when \<open>A\<close> and \<open>B\<close>
  still have their cached digests and \<open>C\<close> has another: the entries of \<open>A\<close> and \<open>B\<close>,
  where present, are the cached ones, the graph never has \<open>A\<close> without \<open>B\<close>, and none
  of the three was judged unchanged.
\<close>

definition changed_chain :: "env \<Rightarrow> path \<Rightarrow> path \<Rightarrow> path \<Rightarrow> state \<Rightarrow> bool" where
  "changed_chain env A B C s \<longleftrightarrow>
     A \<noteq> B \<and> A \<noteq> C \<and> B \<noteq> C \<and>
     file_md5 env A \<noteq> None \<and> s_known_hashes s A = file_md5 env A \<and>
     file_md5 env B \<noteq> None \<and> s_known_hashes s B = file_md5 env B \<and>
     file_md5 env C \<noteq> None \<and> s_known_hashes s C \<noteq> file_md5 env C \<and>
     (s_hashes s A = None \<or> s_hashes s A = file_md5 env A) \<and>
     (s_hashes s B = None \<or> s_hashes s B = file_md5 env B) \<and>
     (s_hashes s C = None \<or> s_hashes s C = file_md5 env C) \<and>
     s_known_graph s A = Some [B] \<and> s_known_graph s B = Some [C] \<and>
     (s_graph s A = None \<or> s_graph s A = Some [B] \<and> s_graph s B = Some [C]) \<and>
     (s_graph s B = None \<or> s_graph s B = Some [C]) \<and>
     s_file_status s A \<noteq> Some False \<and> s_file_status s B \<noteq> Some False \<and>
     s_file_status s C \<noteq> Some False"

text \<open>What is known of the parents when a path of the chain scenario is asked.\<close>

definition chain_parents :: "path \<Rightarrow> path \<Rightarrow> path list \<Rightarrow> path \<Rightarrow> bool" where
  "chain_parents B C ps p \<longleftrightarrow> C \<notin> set ps \<and> (B \<in> set ps \<longrightarrow> p = C)"

text \<open>
  The edges of the graph of a state; the dependency closure of a path is what can be
  reached from it along them.
\<close>

definition edges :: "state \<Rightarrow> (path \<times> path) set" where
  "edges s = {(p, c). \<exists>cs. s_graph s p = Some cs \<and> c \<in> set cs}"

text \<open>
  A file that can be read and whose digest is not the cached one, and a file that can be
  read and whose digest is the cached one. A file that cannot be read is neither.
\<close>

definition own_changed :: "env \<Rightarrow> state \<Rightarrow> path \<Rightarrow> bool" where
  "own_changed env s p = (case file_md5 env p of None \<Rightarrow> False | Some h \<Rightarrow> differs s p h)"

definition unchanged :: "env \<Rightarrow> state \<Rightarrow> path \<Rightarrow> bool" where
  "unchanged env s p = (case file_md5 env p of None \<Rightarrow> False | Some h \<Rightarrow> \<not> differs s p h)"

text \<open>No file of the closure of \<open>p\<close> lies on a cycle of the graph.\<close>

definition nocycle :: "state \<Rightarrow> path \<Rightarrow> bool" where
  "nocycle s p \<longleftrightarrow> (\<forall>r. (p, r) \<in> (edges s)\<^sup>* \<longrightarrow> (r, r) \<notin> (edges s)\<^sup>+)"

text \<open>
  What a verdict says about the closure. "Changed" has a file of the closure that
  changed. "Unchanged" has the path itself unchanged and in the graph and, when no file
  of the closure lies on a cycle, every file of the closure unchanged and in the graph.
  A run keeps its tables sound and every memoised verdict admissible.
\<close>

definition admissible :: "env \<Rightarrow> state \<Rightarrow> path \<Rightarrow> bool \<Rightarrow> bool" where
  "admissible env s p v \<longleftrightarrow>
     (if v then \<exists>r. (p, r) \<in> (edges s)\<^sup>* \<and> own_changed env s r
      else unchanged env s p \<and> s_graph s p \<noteq> None \<and>
           (nocycle s p \<longrightarrow>
              (\<forall>r. (p, r) \<in> (edges s)\<^sup>* \<longrightarrow> unchanged env s r \<and> s_graph s r \<noteq> None)))"

definition justified :: "env \<Rightarrow> state \<Rightarrow> bool" where
  "justified env s \<longleftrightarrow>
     sound_tables env s \<and> (\<forall>q v. s_file_status s q = Some v \<longrightarrow> admissible env s q v)"

subsection \<open>Concrete scenarios\<close>

text \<open>
  An environment from three association lists: the readable regular files with their
  digests, what the resolver answers (no entry: no dependencies), and the source files of
  the units.
\<close>

definition disk :: "(path \<times> hash) list \<Rightarrow> (path \<times> find_result) list \<Rightarrow>
    (pyobject \<times> path) list \<Rightarrow> cache_file \<Rightarrow> env" where
  "disk files deps sources cache =
     \<lparr> file_md5 = map_of files,
       isfile = (\<lambda>p. map_of files p \<noteq> None),
       find_dependencies = (\<lambda>p. case map_of deps p of Some r \<Rightarrow> r | None \<Rightarrow> Found []),
       getsourcefile = (\<lambda>u. Inr (map_of sources u)),
       stored_cache = cache,
       hash_file_writable = True \<rparr>"

text \<open>One unchanged file without dependencies, recorded by the previous run.\<close>

definition leaf_env :: env where
  "leaf_env =
     disk [(''a.py'', ''11'')] []
       [(Module ''a'', ''a.py''), (Class ''A'', ''a.py'')]
       (Loaded (Some [''a.py'' \<mapsto> ''11'']) (Some [''a.py'' \<mapsto> []]))"

text \<open>The state of the leaf scenario after the query for module \<open>a\<close>.\<close>

definition leaf_after_a :: state where
  "leaf_after_a =
     initial\<lparr> s_known_hashes := [''a.py'' \<mapsto> ''11''], s_known_graph := [''a.py'' \<mapsto> []],
              s_hashes := [''a.py'' \<mapsto> ''11''], s_graph := [''a.py'' \<mapsto> []],
              s_file_status := [''a.py'' \<mapsto> False] \<rparr>"

text \<open>
  The chain \<open>a.py \<rightarrow> b.py \<rightarrow> c.py\<close>, recorded by the previous run; since then the
  content of \<open>c.py\<close> changed (digest 34 on disk, 33 in the cache).
\<close>

definition chain_env :: env where
  "chain_env =
     disk [(''a.py'', ''11''), (''b.py'', ''22''), (''c.py'', ''34'')]
       [(''a.py'', Found [''b.py'']), (''b.py'', Found [''c.py'']), (''c.py'', Found [])]
       [(Module ''a'', ''a.py''), (Module ''b'', ''b.py''), (Module ''c'', ''c.py'')]
       (Loaded (Some [''a.py'' \<mapsto> ''11'', ''b.py'' \<mapsto> ''22'', ''c.py'' \<mapsto> ''33''])
               (Some [''a.py'' \<mapsto> [''b.py''], ''b.py'' \<mapsto> [''c.py''], ''c.py'' \<mapsto> []]))"

text \<open>The state of the chain scenario after the query for module \<open>a\<close>.\<close>

definition chain_after_a :: state where
  "chain_after_a =
     initial\<lparr> s_known_hashes := [''a.py'' \<mapsto> ''11'', ''b.py'' \<mapsto> ''22'', ''c.py'' \<mapsto> ''33''],
              s_known_graph := [''a.py'' \<mapsto> [''b.py''], ''b.py'' \<mapsto> [''c.py''], ''c.py'' \<mapsto> []],
              s_hashes := [''a.py'' \<mapsto> ''11'', ''b.py'' \<mapsto> ''22'', ''c.py'' \<mapsto> ''34''],
              s_graph := [''a.py'' \<mapsto> [''b.py''], ''b.py'' \<mapsto> [''c.py''], ''c.py'' \<mapsto> []],
              s_file_status := [''c.py'' \<mapsto> True, ''b.py'' \<mapsto> True, ''a.py'' \<mapsto> True],
              resolver_calls := [(''c.py'', False)] \<rparr>"

text \<open>The cycle \<open>a.py \<rightarrow> b.py \<rightarrow> a.py\<close>, recorded by the previous run, nothing changed.\<close>

definition cycle_env :: env where
  "cycle_env =
     disk [(''a.py'', ''11''), (''b.py'', ''22'')]
       [(''a.py'', Found [''b.py'']), (''b.py'', Found [''a.py''])]
       [(Module ''a'', ''a.py''), (Module ''b'', ''b.py'')]
       (Loaded (Some [''a.py'' \<mapsto> ''11'', ''b.py'' \<mapsto> ''22''])
               (Some [''a.py'' \<mapsto> [''b.py''], ''b.py'' \<mapsto> [''a.py'']]))"

text \<open>
  No cache file. \<open>a.py\<close> imports \<open>x.py\<close>, an existing file on which the resolver raises
  \<^verbatim>\<open>TypeError\<close>.
\<close>

definition cold_env :: env where
  "cold_env =
     disk [(''a.py'', ''11''), (''x.py'', ''22'')]
       [(''a.py'', Found [''x.py'']), (''x.py'', Raises_TypeError)]
       [(Module ''a'', ''a.py''), (Module ''x'', ''x.py'')]
       No_file"

text \<open>The state of the cold scenario after the query for module \<open>a\<close>.\<close>

definition cold_after_a :: state where
  "cold_after_a =
     initial\<lparr> s_graph := [''a.py'' \<mapsto> [''x.py''], ''x.py'' \<mapsto> []],
              s_hashes := [''a.py'' \<mapsto> ''11'', ''x.py'' \<mapsto> ''22''],
              s_file_status := [''a.py'' \<mapsto> True],
              s_ignored_files := {''x.py''},
              resolver_calls := [(''a.py'', False), (''x.py'', False)] \<rparr>"

text \<open>
  \<open>a.py\<close> is unchanged and the previous run recorded its dependency \<open>x.py\<close>; \<open>x.py\<close>
  is new to the cache, and the resolver raises \<^verbatim>\<open>TypeError\<close> on it.
\<close>

definition reuse_env :: env where
  "reuse_env =
     disk [(''a.py'', ''11''), (''x.py'', ''22'')]
       [(''a.py'', Found [''x.py'']), (''x.py'', Raises_TypeError)]
       [(Module ''a'', ''a.py'')]
       (Loaded (Some [''a.py'' \<mapsto> ''11'']) (Some [''a.py'' \<mapsto> [''x.py'']]))"

text \<open>The state of that scenario after the query for module \<open>a\<close>.\<close>

definition reuse_after_a :: state where
  "reuse_after_a =
     initial\<lparr> s_known_hashes := [''a.py'' \<mapsto> ''11''],
              s_known_graph := [''a.py'' \<mapsto> [''x.py'']],
              s_graph := [''a.py'' \<mapsto> [''x.py''], ''x.py'' \<mapsto> []],
              s_hashes := [''a.py'' \<mapsto> ''11'', ''x.py'' \<mapsto> ''22''],
              s_file_status := [''x.py'' \<mapsto> True, ''a.py'' \<mapsto> True],
              s_ignored_files := {''x.py''},
              resolver_calls := [(''x.py'', False)] \<rparr>"

text \<open>
  The run after the leaf scenario, when the test of \<open>a.py\<close> failed there: the file is
  as it was, and the cache has its edge list but no hash for it.
\<close>

definition failed_env :: env where
  "failed_env =
     disk [(''a.py'', ''11'')] [] [(Module ''a'', ''a.py'')]
       (Loaded (Some Map.empty) (Some [''a.py'' \<mapsto> []]))"

text \<open>A cache file that \<^verbatim>\<open>load\<close> cannot decode.\<close>

definition corrupt_env :: env where
  "corrupt_env = disk [(''a.py'', ''11'')] [] [(Module ''a'', ''a.py'')] Unloadable"


text \<open>
  The leaf scenario, with two built-in objects: \<^verbatim>\<open>inspect.getsourcefile\<close> raises
  \<^verbatim>\<open>TypeError\<close> for the module \<^verbatim>\<open>sys\<close> and for the class \<^verbatim>\<open>int\<close>.
\<close>

definition builtin_env :: env where
  "builtin_env =
     leaf_env\<lparr>getsourcefile :=
       (\<lambda>u. if u = Module ''sys'' \<or> u = Class ''int'' then Inl TypeError
            else getsourcefile leaf_env u)\<rparr>"

text \<open>
  \<open>a.py\<close> imports \<open>b.py\<close> and \<open>c.py\<close>, and \<open>b.py\<close> imports \<open>a.py\<close>, all
  recorded by the previous run; since then the content of \<open>c.py\<close> changed.
\<close>

definition closure_env :: env where
  "closure_env =
     disk [(''a.py'', ''11''), (''b.py'', ''22''), (''c.py'', ''34'')] []
       [(Module ''a'', ''a.py''), (Module ''b'', ''b.py'')]
       (Loaded (Some [''a.py'' \<mapsto> ''11'', ''b.py'' \<mapsto> ''22'', ''c.py'' \<mapsto> ''33''])
               (Some [''a.py'' \<mapsto> [''b.py'', ''c.py''], ''b.py'' \<mapsto> [''a.py''],
                      ''c.py'' \<mapsto> []]))"

text \<open>The state of that scenario after the query for module \<open>a\<close>.\<close>

definition closure_after_a :: state where
  "closure_after_a =
     initial\<lparr> s_known_hashes := [''a.py'' \<mapsto> ''11'', ''b.py'' \<mapsto> ''22'', ''c.py'' \<mapsto> ''33''],
              s_known_graph := [''a.py'' \<mapsto> [''b.py'', ''c.py''], ''b.py'' \<mapsto> [''a.py''],
                                ''c.py'' \<mapsto> []],
              s_hashes := [''a.py'' \<mapsto> ''11'', ''b.py'' \<mapsto> ''22'', ''c.py'' \<mapsto> ''34''],
              s_graph := [''a.py'' \<mapsto> [''b.py'', ''c.py''], ''b.py'' \<mapsto> [''a.py''],
                          ''c.py'' \<mapsto> []],
              s_file_status := [''b.py'' \<mapsto> False, ''c.py'' \<mapsto> True, ''a.py'' \<mapsto> True],
              resolver_calls := [(''c.py'', False)] \<rparr>"

text \<open>A state of a run in which some hashes are known, some computed, one module failed.\<close>

definition end_of_run :: state where
  "end_of_run =
     initial\<lparr> s_hashes := [''a.py'' \<mapsto> ''12'', ''f.py'' \<mapsto> ''50''],
              s_graph := [''a.py'' \<mapsto> [''f.py''], ''f.py'' \<mapsto> []],
              s_known_hashes := [''a.py'' \<mapsto> ''11'', ''old.py'' \<mapsto> ''40'', ''f.py'' \<mapsto> ''50''],
              s_known_graph := [''a.py'' \<mapsto> [], ''old.py'' \<mapsto> [''a.py'']],
              s_failed_test_modules := {''f.py''} \<rparr>"

section \<open>Closed forms of the straight-line methods\<close>

text \<open>The equations of the recursive methods are unfolded on request only.\<close>

declare updateGraph.simps(2) [simp del]
declare dependenciesChanged.simps(2) [simp del]

lemma fileChanged_eq:
  "fileChanged env p s =
     (case current_hash env s p of
        None \<Rightarrow> Raise (IOError p) s
      | Some h \<Rightarrow> Return (differs s p h) (s\<lparr>s_hashes := (s_hashes s)(p \<mapsto> h)\<rparr>))"
  by (auto simp: fileChanged_def file_hash_def current_hash_def map_upd_triv split: option.splits)

text \<open>
  The loop keeps exactly the regular files that were not ignored when it began, and
  ignores every entry that is not a regular file.
\<close>

lemma valid_files_loop_eq:
  "valid_files_loop env files vs s =
     (vs @ filter (\<lambda>f. isfile env f \<and> f \<notin> s_ignored_files s) files,
      s\<lparr>s_ignored_files := s_ignored_files s \<union> {f \<in> set files. \<not> isfile env f}\<rparr>)"
proof (induction files arbitrary: vs s)
  case Nil
  then show ?case by simp
next
  case (Cons f files)
  have ins: "insert f (s_ignored_files s \<union> {g \<in> set files. \<not> isfile env g}) =
      s_ignored_files s \<union> {g. (g = f \<or> g \<in> set files) \<and> \<not> isfile env g}"
    if "\<not> isfile env f" using that by auto
  have same: "s_ignored_files s \<union> {g \<in> set files. \<not> isfile env g} =
      s_ignored_files s \<union> {g. (g = f \<or> g \<in> set files) \<and> \<not> isfile env g}"
    if "f \<in> s_ignored_files s \<or> isfile env f" using that by auto
  have flt: "filter (\<lambda>g. isfile env g \<and> g \<noteq> f \<and> g \<notin> s_ignored_files s) files =
      filter (\<lambda>g. isfile env g \<and> g \<notin> s_ignored_files s) files"
    if "\<not> isfile env f" using that by (intro filter_cong) auto
  show ?case
    using ins same flt by (auto simp: Cons.IH)
qed

lemma inspectDependencies_eq:
  "inspectDependencies env p s =
     (case find_dependencies env p of
        Found files \<Rightarrow>
          Return (filter (\<lambda>f. isfile env f \<and> f \<notin> s_ignored_files s) files)
            (s\<lparr>resolver_calls := resolver_calls s @ [(p, p \<in> s_ignored_files s)],
               s_ignored_files := s_ignored_files s \<union> {f \<in> set files. \<not> isfile env f}\<rparr>)
      | Raises_TypeError \<Rightarrow>
          (if p \<in> s_ignored_files s then
             Raise (UnboundLocalError ''files'')
               (s\<lparr>resolver_calls := resolver_calls s @ [(p, True)]\<rparr>)
           else
             Return [] (s\<lparr>resolver_calls := resolver_calls s @ [(p, False)],
                          s_ignored_files := insert p (s_ignored_files s)\<rparr>))
      | Raises_other \<Rightarrow>
          Raise ResolverError
            (s\<lparr>resolver_calls := resolver_calls s @ [(p, p \<in> s_ignored_files s)]\<rparr>))"
  by (simp add: inspectDependencies_def Let_def valid_files_loop_eq split: find_result.splits)

lemma updateGraph_Suc:
  "updateGraph (Suc fuel) env path s =
     (if s_graph s path \<noteq> None then Some (Return () s)
      else (case edges_for env path s of
              Raise e s1 \<Rightarrow> Some (Raise e s1)
            | Return files s1 \<Rightarrow> updateGraph_each fuel env files s1))"
  by (simp add: updateGraph.simps edges_for_def split: outcome.splits bool.splits option.splits)

section \<open>Invariants of the graph store\<close>

text \<open>
  A property of the state that the straight-line part of \<^verbatim>\<open>updateGraph\<close> keeps is
  kept by the whole recursion, whether it returns or raises.
\<close>

lemma updateGraph_each_invariant:
  assumes one: "\<And>p s out. I s \<Longrightarrow> updateGraph fuel env p s = Some out \<Longrightarrow> I (state_of out)"
  shows "I s \<Longrightarrow> updateGraph_each fuel env files s = Some out \<Longrightarrow> I (state_of out)"
proof (induction files arbitrary: s)
  case Nil
  then show ?case by auto
next
  case (Cons f files)
  from Cons.prems obtain o1 where o1: "updateGraph fuel env f s = Some o1"
    by (auto split: option.splits)
  have i1: "I (state_of o1)" using one Cons.prems(1) o1 by blast
  show ?case
  proof (cases o1)
    case (Raise e s1)
    with Cons.prems o1 i1 show ?thesis by auto
  next
    case (Return u s1)
    with Cons.prems o1 i1 Cons.IH[of s1] show ?thesis by auto
  qed
qed

lemma updateGraph_invariant:
  assumes step: "\<And>p s. I s \<Longrightarrow> s_graph s p = None \<Longrightarrow> I (state_of (edges_for env p s))"
  shows "I s \<Longrightarrow> updateGraph fuel env path s = Some out \<Longrightarrow> I (state_of out)"
proof (induction fuel arbitrary: path s out)
  case 0
  then show ?case by simp
next
  case (Suc fuel)
  show ?case
  proof (cases "s_graph s path = None")
    case False
    with Suc.prems show ?thesis by (auto simp: updateGraph_Suc)
  next
    case True
    note i1 = step[OF Suc.prems(1) True]
    show ?thesis
    proof (cases "edges_for env path s")
      case (Raise e s1)
      with Suc.prems True i1 show ?thesis
        by (auto simp: updateGraph_Suc)
    next
      case (Return files s1)
      with Suc.prems(2) True have "updateGraph_each fuel env files s1 = Some out"
        by (simp add: updateGraph_Suc)
      moreover have "I s1" using i1 Return by simp
      ultimately show ?thesis
        using updateGraph_each_invariant[of I fuel env s1 files out] Suc.IH by blast
    qed
  qed
qed

lemma grows_refl: "grows s s"
  by (simp add: grows_def)

lemma grows_trans: "grows a b \<Longrightarrow> grows b c \<Longrightarrow> grows a c"
  unfolding grows_def
  by (intro conjI; (elim conjE)?;
      (simp; fail | erule (1) map_le_trans | erule (1) subset_trans
        | erule (1) prefix_order.trans))

lemma fileChanged_grows: "grows s (state_of (fileChanged env p s))"
  by (auto simp: fileChanged_eq current_hash_def grows_def map_le_def split: option.splits)

lemma edges_for_grows:
  "s_graph s p = None \<Longrightarrow> grows s (state_of (edges_for env p s))"
  by (auto simp: edges_for_def fileChanged_eq inspectDependencies_eq current_hash_def
      grows_def map_le_def split: option.splits bool.splits find_result.splits)

lemma updateGraph_grows:
  assumes "updateGraph fuel env path s = Some out"
  shows "grows s (state_of out)"
proof -
  have "grows s (state_of (edges_for env p s'))" if "grows s s'" "s_graph s' p = None" for p s'
    using that edges_for_grows[of s' p env] grows_trans by blast
  from updateGraph_invariant[of "grows s" env, OF this grows_refl assms] show ?thesis .
qed

lemma edges_for_file_status: "s_file_status (state_of (edges_for env p s)) = s_file_status s"
  by (auto simp: edges_for_def fileChanged_eq inspectDependencies_eq
      split: option.splits bool.splits find_result.splits)

lemma updateGraph_file_status:
  assumes "updateGraph fuel env path s = Some out"
  shows "s_file_status (state_of out) = s_file_status s"
  using updateGraph_invariant[of "\<lambda>s'. s_file_status s' = s_file_status s" env s fuel path out]
    assms
  by (simp add: edges_for_file_status)


section \<open>The queries\<close>

lemma lookup_cases [case_names Raises Nothing Source]:
  fixes x :: "'e + 'p option"
  obtains (Raises) e where "x = Inl e" | (Nothing) "x = Inr None"
    | (Source) p where "x = Inr (Some p)"
  by (cases x) auto

lemma want_returned:
  "(getsourcefile env u = Inr None \<longrightarrow>
      wantModule fuel env u s = Some (Return None s) \<and>
      wantClass fuel env u s = Some (Return None s)) \<and>
   (getsourcefile env u = Inr (Some source) \<longrightarrow>
      returned (wantModule fuel env u s) =
        map_option (\<lambda>changed. if changed then None else Some False) (verdict fuel env source s) \<and>
      returned (wantClass fuel env u s) =
        map_option (\<lambda>changed. if changed then None else Some False) (verdict fuel env source s)) \<and>
   (getsourcefile env u = Inl e \<longrightarrow>
      wantModule fuel env u s = Some (Raise e s) \<and>
      wantClass fuel env u s = Some (Raise e s))"
  by (auto simp: wantModule_def wantClass_def verdict_def
      split: option.splits outcome.splits)

lemma leaf_env_fields:
  "file_md5 leaf_env = [''a.py'' \<mapsto> ''11'']"
  "getsourcefile leaf_env = (\<lambda>u. Inr ([Module ''a'' \<mapsto> ''a.py'', Class ''A'' \<mapsto> ''a.py''] u))"
  "hash_file_writable leaf_env"
  "stored_cache leaf_env = Loaded (Some [''a.py'' \<mapsto> ''11'']) (Some [''a.py'' \<mapsto> []])"
  by (simp_all add: leaf_env_def disk_def fun_eq_iff)

lemma started_leaf:
  "started leaf_env =
     initial\<lparr>s_known_hashes := [''a.py'' \<mapsto> ''11''], s_known_graph := [''a.py'' \<mapsto> []]\<rparr>"
  by (simp add: started_def configure_def leaf_env_def disk_def)

lemma chain_env_fields:
  "file_md5 chain_env = [''a.py'' \<mapsto> ''11'', ''b.py'' \<mapsto> ''22'', ''c.py'' \<mapsto> ''34'']"
  "find_dependencies chain_env ''c.py'' = Found []"
  "getsourcefile chain_env =
     (\<lambda>u. Inr ([Module ''a'' \<mapsto> ''a.py'', Module ''b'' \<mapsto> ''b.py'', Module ''c'' \<mapsto> ''c.py''] u))"
  "stored_cache chain_env =
     Loaded (Some [''a.py'' \<mapsto> ''11'', ''b.py'' \<mapsto> ''22'', ''c.py'' \<mapsto> ''33''])
            (Some [''a.py'' \<mapsto> [''b.py''], ''b.py'' \<mapsto> [''c.py''], ''c.py'' \<mapsto> []])"
  by (simp_all add: chain_env_def disk_def fun_eq_iff)

lemma started_chain:
  "started chain_env =
     initial\<lparr>s_known_hashes := [''a.py'' \<mapsto> ''11'', ''b.py'' \<mapsto> ''22'', ''c.py'' \<mapsto> ''33''],
             s_known_graph := [''a.py'' \<mapsto> [''b.py''], ''b.py'' \<mapsto> [''c.py''], ''c.py'' \<mapsto> []]\<rparr>"
  by (simp add: started_def configure_def chain_env_def disk_def)

lemma verdict_leaf: "verdict 2 leaf_env ''a.py'' (started leaf_env) = Some False"
  unfolding started_leaf
  by (simp add: verdict_def initial_def leaf_env_fields numeral_2_eq_2
      updateGraph.simps dependenciesChanged.simps fileChanged_def file_hash_def differs_def)

lemma verdict_chain: "verdict 3 chain_env ''a.py'' (started chain_env) = Some True"
  unfolding started_chain
  by (simp add: verdict_def initial_def chain_env_fields numeral_3_eq_3
      updateGraph.simps dependenciesChanged.simps fileChanged_def file_hash_def differs_def
      inspectDependencies_def)

section \<open>The end of a run\<close>

text \<open>
  C3. When the cache file can be written, \<^verbatim>\<open>finalize\<close> dumps: as hashes, the known
  hashes overridden by the hashes of this run, without the keys of the failed modules; as
  graph, the known graph overridden by the graph of this run. The plugin's own tables end
  up holding the same. A test that did not pass puts its file among the failed modules, so
  no hash is dumped for it.
\<close>

theorem finalize_merge:
  "hash_file_writable env \<longrightarrow>
     finalize env s =
       Return \<lparr> hashes = (s_known_hashes s ++ s_hashes s) |` (- s_failed_test_modules s),
                graph_of = s_known_graph s ++ s_graph s \<rparr>
              (s\<lparr> s_hashes := (s_known_hashes s ++ s_hashes s) |` (- s_failed_test_modules s),
                  s_graph := s_known_graph s ++ s_graph s \<rparr>) \<and>
     (passed t = Some False \<longrightarrow>
        map_option (\<lambda>d. hashes d (address0 t)) (returned (Some (finalize env (afterTest t s))))
          = Some None)"
  by (auto simp: finalize_def Let_def setdefault_items_def pop_each_def map_add_def
       restrict_map_def fun_eq_iff afterTest_def split: option.splits)

theorem finalize_merge_witness:
  "map_option (\<lambda>d. (hashes d ''a.py'', hashes d ''old.py'', hashes d ''f.py'',
                     graph_of d ''a.py'', graph_of d ''old.py'', graph_of d ''f.py''))
     (returned (Some (finalize leaf_env end_of_run))) =
   Some (Some ''12'', Some ''40'', None, Some [''f.py''], Some [''a.py''], Some []) \<and>
   map_option (\<lambda>d. hashes d ''a.py'')
     (returned (Some (finalize leaf_env
        (afterTest \<lparr>passed = Some False, address0 = ''a.py''\<rparr> end_of_run)))) = Some None"
  using finalize_merge [of leaf_env end_of_run "\<lparr>passed = Some False, address0 = ''a.py''\<rparr>"]
  by (simp add: leaf_env_fields end_of_run_def initial_def map_add_def restrict_map_def
      afterTest_def)

section \<open>The resolver adapter\<close>

text \<open>
  A structural failure on a path that is not ignored yet: the path becomes ignored and
  the call returns the empty list.
\<close>

lemma inspectDependencies_TypeError_fresh:
  "find_dependencies env p = Raises_TypeError \<Longrightarrow> p \<notin> s_ignored_files s \<Longrightarrow>
     inspectDependencies env p s =
       Return [] (s\<lparr>resolver_calls := resolver_calls s @ [(p, False)],
                    s_ignored_files := insert p (s_ignored_files s)\<rparr>)"
  by (simp add: inspectDependencies_eq)

text \<open>
  C5 fails for a path that is ignored already: the handler of \<^verbatim>\<open>TypeError\<close> ends
  without returning, and the loop over the unbound \<^verbatim>\<open>files\<close> raises
  \<^verbatim>\<open>UnboundLocalError\<close>. The call below is the one of the cold scenario after the
  query for \<open>a\<close>, on \<open>x.py\<close>, which that query ignored.
\<close>

theorem inspectDependencies_ignored_raises:
  "find_dependencies cold_env ''x.py'' = Raises_TypeError \<and>
   ''x.py'' \<in> s_ignored_files cold_after_a \<and>
   inspectDependencies cold_env ''x.py'' cold_after_a =
     Raise (UnboundLocalError ''files'')
       (cold_after_a\<lparr>resolver_calls := resolver_calls cold_after_a @ [(''x.py'', True)]\<rparr>)"
  by (simp add: inspectDependencies_def cold_env_def disk_def cold_after_a_def initial_def)


section \<open>Invariants of the change detector and of runs\<close>

lemma any_changed_invariant:
  assumes one: "\<And>p s out. I s \<Longrightarrow> dependenciesChanged fuel env p np s = Some out
      \<Longrightarrow> I (state_of out)"
  shows "I s \<Longrightarrow> any_changed fuel env childs np s = Some out \<Longrightarrow> I (state_of out)"
proof (induction childs arbitrary: s)
  case Nil
  then show ?case by auto
next
  case (Cons f childs)
  show ?case
  proof (cases "f \<in> set np")
    case True
    with Cons show ?thesis by simp
  next
    case False
    with Cons.prems obtain o1 where o1: "dependenciesChanged fuel env f np s = Some o1"
      by (auto split: option.splits)
    have i1: "I (state_of o1)" using one Cons.prems(1) o1 by blast
    show ?thesis
    proof (cases o1)
      case (Raise e s1)
      with Cons.prems o1 i1 False show ?thesis by auto
    next
      case (Return v s1)
      with Cons.prems o1 i1 False Cons.IH[of s1] show ?thesis
        by (cases v) auto
    qed
  qed
qed

text \<open>
  A property that hashing a file keeps and that does not depend on the memo of verdicts
  is kept by the change detector.
\<close>

lemma dependenciesChanged_invariant:
  assumes fc: "\<And>p s. I s \<Longrightarrow> I (state_of (fileChanged env p s))"
    and memo: "\<And>p v s. I s \<Longrightarrow> I (s\<lparr>s_file_status := (s_file_status s)(p \<mapsto> v)\<rparr>)"
  shows "I s \<Longrightarrow> dependenciesChanged fuel env path parents s = Some out \<Longrightarrow> I (state_of out)"
proof (induction fuel arbitrary: path parents s out)
  case 0
  then show ?case by simp
next
  case (Suc fuel)
  show ?case
  proof (cases "s_file_status s path")
    case (Some v)
    with Suc.prems show ?thesis by (auto simp: dependenciesChanged.simps)
  next
    case None
    note unfold = dependenciesChanged.simps(2)[of fuel env path parents s]
    note i1 = fc[OF Suc.prems(1), of path]
    show ?thesis
    proof (cases "fileChanged env path s")
      case (Raise e s1)
      with Suc.prems None i1 show ?thesis by (auto simp: unfold)
    next
      case (Return changed s1)
      with i1 have is1: "I s1" by simp
      show ?thesis
      proof (cases changed)
        case True
        with Suc.prems None Return memo[OF is1] show ?thesis by (auto simp: unfold)
      next
        case False
        show ?thesis
        proof (cases "s_graph s1 path")
          case n: None
          with Suc.prems None Return False is1 show ?thesis by (auto simp: unfold)
        next
          case (Some childs)
          with Suc.prems(2) None Return False obtain o2 where
            o2: "any_changed fuel env childs (parents @ [path]) s1 = Some o2"
            by (auto simp: unfold split: option.splits)
          have i2: "I (state_of o2)"
            using any_changed_invariant[of I fuel env "parents @ [path]" s1 childs o2]
              Suc.IH is1 o2 by blast
          show ?thesis
          proof (cases o2)
            case r: (Raise e s2)
            with Suc.prems(2) None Return False Some o2 i2 show ?thesis by (auto simp: unfold)
          next
            case r: (Return v s2)
            with Suc.prems(2) None Return False Some o2 i2 memo[of s2 path v] show ?thesis
              by (auto simp: unfold)
          qed
        qed
      qed
    qed
  qed
qed

text \<open>A property kept by the three hooks is kept by a run.\<close>

lemma run_invariant:
  assumes ug: "\<And>fuel p s out. I s \<Longrightarrow> updateGraph fuel env p s = Some out \<Longrightarrow> I (state_of out)"
    and dc: "\<And>fuel p s out. I s \<Longrightarrow> dependenciesChanged fuel env p [] s = Some out
        \<Longrightarrow> I (state_of out)"
    and af: "\<And>t s. I s \<Longrightarrow> I (afterTest t s)"
  shows "I s \<Longrightarrow> run env evs s = Some s' \<Longrightarrow> I s'"
proof (induction evs arbitrary: s)
  case Nil
  then show ?case by simp
next
  case (Cons ev evs)
  from Cons.prems obtain s1 where s1: "step env ev s = Some s1" and r: "run env evs s1 = Some s'"
    by (auto split: option.splits)
  have query: "I (state_of out)"
    if "wantModule fuel env u s = Some out \<or> wantClass fuel env u s = Some out" for fuel u out
  proof (cases "getsourcefile env u" rule: lookup_cases)
    case (Raises e)
    with that Cons.prems(1) show ?thesis by (auto simp: wantModule_def wantClass_def)
  next
    case Nothing
    with that Cons.prems(1) show ?thesis by (auto simp: wantModule_def wantClass_def)
  next
    case Some: (Source source)
    from that Some obtain o1 where o1: "updateGraph fuel env source s = Some o1"
      by (auto simp: wantModule_def wantClass_def split: option.splits)
    have i1: "I (state_of o1)" using ug Cons.prems(1) o1 by blast
    show ?thesis
    proof (cases o1)
      case (Raise e s1)
      with that Some o1 i1 show ?thesis by (auto simp: wantModule_def wantClass_def)
    next
      case (Return u1 s1)
      with that Some o1 obtain o2 where o2: "dependenciesChanged fuel env source [] s1 = Some o2"
        by (auto simp: wantModule_def wantClass_def split: option.splits)
      have "I (state_of o2)" using dc i1 Return o2 by auto
      with that Some o1 Return o2 show ?thesis
        by (cases o2) (auto simp: wantModule_def wantClass_def)
    qed
  qed
  have "I s1"
  proof (cases ev)
    case (WantModule fuel u)
    with s1 query show ?thesis by auto
  next
    case (WantClass fuel u)
    with s1 query show ?thesis by auto
  next
    case (AfterTest t)
    with s1 af Cons.prems(1) show ?thesis by auto
  qed
  with Cons.IH r show ?case by blast
qed

lemma dependenciesChanged_grows:
  assumes "dependenciesChanged fuel env path parents s = Some out"
  shows "s_known_graph (state_of out) = s_known_graph s \<and>
         s_known_hashes (state_of out) = s_known_hashes s \<and>
         s_failed_test_modules (state_of out) = s_failed_test_modules s \<and>
         s_graph (state_of out) = s_graph s \<and>
         s_ignored_files (state_of out) = s_ignored_files s \<and>
         resolver_calls (state_of out) = resolver_calls s \<and>
         s_hashes s \<subseteq>\<^sub>m s_hashes (state_of out)"
proof -
  define I where "I s' \<longleftrightarrow> s_known_graph s' = s_known_graph s \<and>
         s_known_hashes s' = s_known_hashes s \<and>
         s_failed_test_modules s' = s_failed_test_modules s \<and>
         s_graph s' = s_graph s \<and>
         s_ignored_files s' = s_ignored_files s \<and>
         resolver_calls s' = resolver_calls s \<and>
         s_hashes s \<subseteq>\<^sub>m s_hashes s'" for s' :: state
  have fc: "I (state_of (fileChanged env p s'))" if "I s'" for p s'
    using that fileChanged_grows[of s' env p] unfolding I_def grows_def
    by (auto simp: fileChanged_eq split: option.splits intro: map_le_trans)
  have memo: "I (s'\<lparr>s_file_status := (s_file_status s')(p \<mapsto> v)\<rparr>)" if "I s'" for p v s'
    using that by (simp add: I_def)
  have "I s" by (simp add: I_def)
  from dependenciesChanged_invariant[of I env, OF fc memo this assms]
  show ?thesis by (simp add: I_def)
qed


lemma run_grows:
  assumes "run env evs s = Some s'"
  shows "grows s s'"
proof -
  have ug: "grows s (state_of out)" if "grows s s1" "updateGraph fuel env p s1 = Some out"
    for fuel p s1 out
    using that updateGraph_grows grows_trans by blast
  have dc: "grows s (state_of out)"
    if "grows s s1" "dependenciesChanged fuel env p [] s1 = Some out" for fuel p s1 out
  proof -
    from dependenciesChanged_grows[OF that(2)] have "grows s1 (state_of out)"
      by (simp add: grows_def)
    with that(1) show ?thesis by (rule grows_trans)
  qed
  have af: "grows s (afterTest t s1)" if "grows s s1" for t s1
  proof -
    have "grows s1 (afterTest t s1)" by (auto simp: grows_def afterTest_def)
    with that show ?thesis by (rule grows_trans)
  qed
  from run_invariant[of "grows s" env, OF ug dc af grows_refl assms] show ?thesis .
qed

section \<open>Cold start\<close>

lemma cold_edges_for: "cold s \<Longrightarrow> cold (state_of (edges_for env p s))"
  unfolding cold_def edges_for_file_status
  by (auto simp: edges_for_def fileChanged_eq inspectDependencies_eq
      split: option.splits bool.splits find_result.splits)

lemma cold_updateGraph: "cold s \<Longrightarrow> updateGraph fuel env p s = Some out \<Longrightarrow> cold (state_of out)"
  using updateGraph_invariant[of cold env s fuel p out] cold_edges_for by blast

text \<open>
  In a cold state the change detector never descends: the verdict is the memo, which is
  "changed", or the file's own hash test, which no known hash can pass.
\<close>

lemma cold_dependenciesChanged:
  assumes "cold s"
  shows "dependenciesChanged (Suc fuel) env p parents s =
     (case s_file_status s p of
        Some v \<Rightarrow> Some (Return True s)
      | None \<Rightarrow>
          (case current_hash env s p of
             None \<Rightarrow> Some (Raise (IOError p) s)
           | Some h \<Rightarrow> Some (Return True (s\<lparr>s_hashes := (s_hashes s)(p \<mapsto> h),
                                              s_file_status := (s_file_status s)(p \<mapsto> True)\<rparr>))))"
proof (cases "s_file_status s p")
  case None
  with assms show ?thesis
    by (auto simp: dependenciesChanged.simps cold_def fileChanged_eq differs_def
        split: option.splits)
next
  case (Some v)
  with assms have v by (cases v) (auto simp: cold_def)
  with Some show ?thesis by (simp add: dependenciesChanged.simps)
qed

lemma cold_dependenciesChanged_state:
  assumes "cold s" "dependenciesChanged fuel env p parents s = Some out"
  shows "cold (state_of out)"
proof (cases fuel)
  case 0
  with assms show ?thesis by simp
next
  case (Suc n)
  with assms show ?thesis
    by (auto simp: cold_dependenciesChanged)
       (auto simp: cold_def split: option.splits if_splits)
qed

lemma cold_run: "cold s \<Longrightarrow> run env evs s = Some s' \<Longrightarrow> cold s'"
proof (rule run_invariant[of cold env s evs s'])
  show "cold (afterTest t s1)" if "cold s1" for t s1
    using that by (simp add: cold_def afterTest_def)
qed (auto intro: cold_updateGraph cold_dependenciesChanged_state)

lemma cold_query:
  assumes "cold s"
  shows "returned (wantModule fuel env u s) \<noteq> Some (Some False)"
    and "returned (wantClass fuel env u s) \<noteq> Some (Some False)"
proof -
  have nv: "verdict fuel env source s \<noteq> Some False" for source
  proof (cases "updateGraph fuel env source s")
    case None
    then show ?thesis by (simp add: verdict_def)
  next
    case (Some o1)
    show ?thesis
    proof (cases o1)
      case (Raise e s1)
      with Some show ?thesis by (simp add: verdict_def)
    next
      case (Return u1 s1)
      with Some assms cold_updateGraph[of s fuel env source o1] have c1: "cold s1" by simp
      show ?thesis
      proof (cases fuel)
        case 0
        with Some show ?thesis by simp
      next
        case (Suc n)
        with Some Return c1 show ?thesis
          by (auto simp: verdict_def cold_dependenciesChanged split: option.splits)
      qed
    qed
  qed
  have "map_option (\<lambda>changed. if changed then None else Some False)
      (verdict fuel env source s) \<noteq> Some (Some False)" for source
    using nv[of source] by (cases "verdict fuel env source s") (auto split: if_splits)
  then show "returned (wantModule fuel env u s) \<noteq> Some (Some False)"
    and "returned (wantClass fuel env u s) \<noteq> Some (Some False)"
    using want_returned[of env u fuel s]
    by (cases "getsourcefile env u" rule: lookup_cases; auto)+
qed

text \<open>
  C7, as the code has it. With no cache file \<^verbatim>\<open>configure\<close> returns and leaves the
  plugin without known hashes and without a known graph, and so they stay through the
  run: wherever the run stands, a file that can be read is judged changed, and no query
  answers \<^verbatim>\<open>False\<close>, so no unit is skipped. Nothing is said of a cache file that is
  present: it is loaded without any handler around \<^verbatim>\<open>load\<close>.
\<close>

theorem configure_absent_cold_start:
  "stored_cache env = No_file \<longrightarrow>
     configure env initial = Return () initial \<and>
     (run env evs (started env) = Some s \<longrightarrow>
        s_known_hashes s = Map.empty \<and> s_known_graph s = Map.empty \<and>
        (file_md5 env p \<noteq> None \<longrightarrow>
           returned (dependenciesChanged (Suc fuel) env p parents s) = Some True) \<and>
        returned (wantModule fuel env u s) \<noteq> Some (Some False) \<and>
        returned (wantClass fuel env u s) \<noteq> Some (Some False))"
proof (intro impI conjI)
  assume nf: "stored_cache env = No_file"
  then show "configure env initial = Return () initial"
    by (simp add: configure_def)
  then have st: "started env = initial" by (simp add: started_def)
  have ci: "cold initial" by (simp add: cold_def initial_def)
  assume r: "run env evs (started env) = Some s"
  with st ci cold_run have c: "cold s" by metis
  from run_grows[OF r] st show "s_known_hashes s = Map.empty" "s_known_graph s = Map.empty"
    by (simp_all add: grows_def initial_def)
  from c show "returned (wantModule fuel env u s) \<noteq> Some (Some False)"
    and "returned (wantClass fuel env u s) \<noteq> Some (Some False)"
    by (rule cold_query)+
  assume "file_md5 env p \<noteq> None"
  then show "returned (dependenciesChanged (Suc fuel) env p parents s) = Some True"
    using c by (auto simp: cold_dependenciesChanged current_hash_def split: option.splits)
qed

lemma cold_env_fields:
  "file_md5 cold_env = [''a.py'' \<mapsto> ''11'', ''x.py'' \<mapsto> ''22'']"
  "isfile cold_env = (\<lambda>p. p = ''a.py'' \<or> p = ''x.py'')"
  "find_dependencies cold_env ''a.py'' = Found [''x.py'']"
  "find_dependencies cold_env ''x.py'' = Raises_TypeError"
  "getsourcefile cold_env = (\<lambda>u. Inr ([Module ''a'' \<mapsto> ''a.py'', Module ''x'' \<mapsto> ''x.py''] u))"
  "stored_cache cold_env = No_file"
  by (auto simp: cold_env_def disk_def fun_eq_iff)

lemma started_cold: "started cold_env = initial"
  by (simp add: started_def configure_def cold_env_fields)

lemma cold_query_a:
  "wantModule 3 cold_env (Module ''a'') initial = Some (Return None cold_after_a)"
  by (simp add: wantModule_def cold_env_fields numeral_3_eq_3 initial_def cold_after_a_def
      updateGraph.simps dependenciesChanged.simps fileChanged_def file_hash_def differs_def
      inspectDependencies_def)

theorem configure_absent_cold_start_witness:
  "stored_cache cold_env = No_file \<and>
   configure cold_env initial = Return () initial \<and>
   run cold_env [WantModule 3 (Module ''a'')] (started cold_env) = Some cold_after_a \<and>
   s_known_hashes cold_after_a = Map.empty \<and>
   returned (dependenciesChanged (Suc 2) cold_env ''x.py'' [] cold_after_a) = Some True \<and>
   returned (wantModule 2 cold_env (Module ''x'') cold_after_a) \<noteq> Some (Some False)"
  using configure_absent_cold_start [of cold_env "[WantModule 3 (Module ''a'')]" cold_after_a
      "''x.py''" 2 "[]" "Module ''x''"]
  by (simp add: cold_env_fields started_cold cold_query_a)

text \<open>
  Counterexample to C7 as the claim has it: a cache file that is present and cannot be
  decoded makes \<^verbatim>\<open>configure\<close> raise what \<^verbatim>\<open>load\<close> raises.
\<close>

theorem configure_corrupt_counterexample:
  "stored_cache corrupt_env = Unloadable \<and>
   configure corrupt_env initial = Raise UnpicklingError initial"
  by (simp add: corrupt_env_def disk_def configure_def)


section \<open>Which verdicts the change detector can reach\<close>

text \<open>
  The loop over the children, given what the recursive call does: the state property is
  kept; a result \<open>True\<close> comes from a child that was asked and answered \<open>True\<close>; a
  result \<open>False\<close> means that every child that was asked answered \<open>False\<close>.
\<close>

lemma any_changed_verdicts:
  assumes one: "\<And>f s out. I s \<Longrightarrow> PP np f \<Longrightarrow> dependenciesChanged fuel env f np s = Some out
      \<Longrightarrow> I (state_of out) \<and> (\<forall>v s'. out = Return v s' \<longrightarrow> V f v)"
  shows "I s \<Longrightarrow> (\<forall>f\<in>set childs. f \<notin> set np \<longrightarrow> PP np f) \<Longrightarrow>
     any_changed fuel env childs np s = Some out \<Longrightarrow>
     I (state_of out) \<and>
     (\<forall>v s'. out = Return v s' \<longrightarrow>
        (if v then \<exists>f\<in>set childs. f \<notin> set np \<and> V f True
         else \<forall>f\<in>set childs. f \<notin> set np \<longrightarrow> V f False))"
proof (induction childs arbitrary: s)
  case Nil
  then show ?case by auto
next
  case (Cons f childs)
  show ?case
  proof (cases "f \<in> set np")
    case True
    with Cons.prems Cons.IH[of s] show ?thesis by auto
  next
    case False
    with Cons.prems obtain o1 where o1: "dependenciesChanged fuel env f np s = Some o1"
      by (auto split: option.splits)
    from Cons.prems(2) False have pp: "PP np f" by simp
    note r1 = one[OF Cons.prems(1) pp o1]
    show ?thesis
    proof (cases o1)
      case (Raise e s1)
      with Cons.prems o1 r1 False show ?thesis by auto
    next
      case (Return v s1)
      show ?thesis
      proof (cases v)
        case True
        with Return Cons.prems o1 r1 False show ?thesis by auto
      next
        case v: False
        with Return o1 Cons.prems(3) False
        have rest: "any_changed fuel env childs np s1 = Some out" by simp
        from r1 Return v have "I s1" "V f False" by auto
        with Cons.IH[of s1] rest Cons.prems(2) False show ?thesis by auto
      qed
    qed
  qed
qed

text \<open>
  A scheme for the change detector. \<open>I\<close> is a property of the state that hashing keeps
  and that memoising an admissible verdict keeps; \<open>V p v\<close> says that \<open>v\<close> is an
  admissible verdict for \<open>p\<close>; \<open>PP parents p\<close> is what is known of the parents when
  \<open>p\<close> is asked. If memo hits and own changes are admissible, and if a verdict computed
  from admissible verdicts of the children that were asked is admissible, then every
  verdict returned is admissible.
\<close>

lemma dependenciesChanged_verdicts:
  assumes fc: "\<And>p s. I s \<Longrightarrow> I (state_of (fileChanged env p s))"
    and memo: "\<And>p v s. I s \<Longrightarrow> V p v \<Longrightarrow> I (s\<lparr>s_file_status := (s_file_status s)(p \<mapsto> v)\<rparr>)"
    and hit: "\<And>p v s. I s \<Longrightarrow> s_file_status s p = Some v \<Longrightarrow> V p v"
    and own: "\<And>p s s1. I s \<Longrightarrow> fileChanged env p s = Return True s1 \<Longrightarrow> V p True"
    and down: "\<And>p ps s s1 cs f. I s \<Longrightarrow> PP ps p \<Longrightarrow> fileChanged env p s = Return False s1 \<Longrightarrow>
        s_graph s1 p = Some cs \<Longrightarrow> f \<in> set cs \<Longrightarrow> f \<notin> set (ps @ [p]) \<Longrightarrow> PP (ps @ [p]) f"
    and up: "\<And>p ps s s1 cs v. I s \<Longrightarrow> PP ps p \<Longrightarrow> fileChanged env p s = Return False s1 \<Longrightarrow>
        s_graph s1 p = Some cs \<Longrightarrow>
        (if v then \<exists>f\<in>set cs. f \<notin> set (ps @ [p]) \<and> V f True
         else \<forall>f\<in>set cs. f \<notin> set (ps @ [p]) \<longrightarrow> V f False) \<Longrightarrow> V p v"
  shows "I s \<Longrightarrow> PP parents path \<Longrightarrow> dependenciesChanged fuel env path parents s = Some out \<Longrightarrow>
     I (state_of out) \<and> (\<forall>v s'. out = Return v s' \<longrightarrow> V path v)"
proof (induction fuel arbitrary: path parents s out)
  case 0
  then show ?case by simp
next
  case (Suc fuel)
  note unfold = dependenciesChanged.simps(2)[of fuel env path parents s]
  show ?case
  proof (cases "s_file_status s path")
    case (Some v)
    with Suc.prems hit[OF Suc.prems(1) Some] show ?thesis by (auto simp: unfold)
  next
    case None
    note i1 = fc[OF Suc.prems(1), of path]
    show ?thesis
    proof (cases "fileChanged env path s")
      case (Raise e s1)
      with Suc.prems None i1 show ?thesis by (auto simp: unfold)
    next
      case (Return changed s1)
      with i1 have is1: "I s1" by simp
      show ?thesis
      proof (cases changed)
        case True
        with Return have "fileChanged env path s = Return True s1" by simp
        from own[OF Suc.prems(1) this] have "V path True" .
        with Suc.prems None Return True memo[OF is1] show ?thesis by (auto simp: unfold)
      next
        case False
        with Return have fcF: "fileChanged env path s = Return False s1" by simp
        show ?thesis
        proof (cases "s_graph s1 path")
          case n: None
          with Suc.prems None Return False is1 show ?thesis by (auto simp: unfold)
        next
          case (Some childs)
          with Suc.prems(3) None Return False obtain o2 where
            o2: "any_changed fuel env childs (parents @ [path]) s1 = Some o2"
            by (auto simp: unfold split: option.splits)
          have pps: "\<forall>f\<in>set childs. f \<notin> set (parents @ [path]) \<longrightarrow> PP (parents @ [path]) f"
            using down[OF Suc.prems(1,2) fcF Some] by blast
          have r2: "I (state_of o2) \<and>
             (\<forall>v s'. o2 = Return v s' \<longrightarrow>
                (if v then \<exists>f\<in>set childs. f \<notin> set (parents @ [path]) \<and> V f True
                 else \<forall>f\<in>set childs. f \<notin> set (parents @ [path]) \<longrightarrow> V f False))"
            by (rule any_changed_verdicts[of I PP "parents @ [path]" fuel env V s1 childs o2,
                  OF Suc.IH is1 pps o2])
          show ?thesis
          proof (cases o2)
            case r: (Raise e s2)
            with Suc.prems(3) None Return False Some o2 r2 show ?thesis by (auto simp: unfold)
          next
            case r: (Return v s2)
            with r2 have "I s2" and
              ch: "if v then \<exists>f\<in>set childs. f \<notin> set (parents @ [path]) \<and> V f True
                   else \<forall>f\<in>set childs. f \<notin> set (parents @ [path]) \<longrightarrow> V f False"
              by auto
            from up[OF Suc.prems(1,2) fcF Some ch] have "V path v" .
            with Suc.prems(3) None Return False Some o2 r \<open>I s2\<close> memo[of s2 path v]
            show ?thesis by (auto simp: unfold)
          qed
        qed
      qed
    qed
  qed
qed

text \<open>
  The scheme of the graph store again, with a set of paths whose visit is analysed as a
  whole instead of step by step; what is known of the visits of lesser depth may be used
  there.
\<close>

lemma updateGraph_invariant_but:
  assumes step: "\<And>p s. I s \<Longrightarrow> p \<notin> X \<Longrightarrow> s_graph s p = None \<Longrightarrow> I (state_of (edges_for env p s))"
    and whole: "\<And>fuel p s out. I s \<Longrightarrow> p \<in> X \<Longrightarrow>
        (\<And>k q s' out'. k < fuel \<Longrightarrow> I s' \<Longrightarrow> updateGraph k env q s' = Some out'
           \<Longrightarrow> I (state_of out')) \<Longrightarrow>
        updateGraph fuel env p s = Some out \<Longrightarrow> I (state_of out)"
  shows "I s \<Longrightarrow> updateGraph fuel env path s = Some out \<Longrightarrow> I (state_of out)"
proof (induction fuel arbitrary: path s out rule: less_induct)
  case (less fuel)
  show ?case
  proof (cases "path \<in> X")
    case True
    show ?thesis
      by (rule whole[OF less.prems(1) True _ less.prems(2)]) (use less.IH in blast)
  next
    case notX: False
    show ?thesis
    proof (cases fuel)
      case 0
      with less.prems show ?thesis by simp
    next
      case (Suc n)
      show ?thesis
      proof (cases "s_graph s path = None")
        case False
        with less.prems Suc show ?thesis by (auto simp: updateGraph_Suc)
      next
        case True
        note i1 = step[OF less.prems(1) notX True]
        show ?thesis
        proof (cases "edges_for env path s")
          case (Raise e s1)
          with less.prems Suc True i1 show ?thesis by (auto simp: updateGraph_Suc)
        next
          case (Return files s1)
          with less.prems(2) Suc True have "updateGraph_each n env files s1 = Some out"
            by (simp add: updateGraph_Suc)
          moreover have "I s1" using i1 Return by simp
          moreover have "I (state_of out')"
            if "I s'" "updateGraph n env q s' = Some out'" for q s' out'
            using less.IH[of n s' q out'] that Suc by simp
          ultimately show ?thesis
            using updateGraph_each_invariant[of I n env s1 files out] by blast
        qed
      qed
    qed
  qed
qed

text \<open>A visit that returns has recorded the edge list of its path.\<close>

lemma updateGraph_each_grows:
  assumes "updateGraph_each fuel env files s = Some out"
  shows "grows s (state_of out)"
proof -
  have "grows s (state_of out')" if "grows s s1" "updateGraph fuel env p s1 = Some out'"
    for p s1 out'
    using that updateGraph_grows grows_trans by blast
  from updateGraph_each_invariant[of "grows s" fuel env, OF this grows_refl assms]
  show ?thesis .
qed

lemma updateGraph_records:
  assumes "updateGraph fuel env p s = Some (Return u s1)"
  shows "s_graph s1 p \<noteq> None"
proof (cases fuel)
  case 0
  with assms show ?thesis by simp
next
  case (Suc n)
  show ?thesis
  proof (cases "s_graph s p = None")
    case False
    with assms Suc show ?thesis by (auto simp: updateGraph_Suc)
  next
    case True
    with assms Suc obtain files s' where e: "edges_for env p s = Return files s'"
      and r: "updateGraph_each n env files s' = Some (Return u s1)"
      by (auto simp: updateGraph_Suc split: outcome.splits)
    from e have "s_graph s' p = Some files"
      by (auto simp: edges_for_def split: outcome.splits)
    with updateGraph_each_grows[OF r] show ?thesis
      by (auto simp: grows_def map_le_def dom_def)
  qed
qed


section \<open>An unchanged file without dependencies\<close>

lemma stable_leaf_fileChanged:
  "stable_leaf env A s \<Longrightarrow> stable_leaf env A (state_of (fileChanged env p s))"
  by (auto simp: stable_leaf_def fileChanged_eq current_hash_def split: option.splits)

lemma stable_leaf_own:
  "stable_leaf env A s \<Longrightarrow> fileChanged env A s = Return v s1 \<Longrightarrow> \<not> v"
  by (auto simp: stable_leaf_def fileChanged_eq current_hash_def differs_def
      split: option.splits)

lemma stable_leaf_edges_for:
  "stable_leaf env A s \<Longrightarrow> stable_leaf env A (state_of (edges_for env p s))"
  by (cases "p = A")
     (auto simp: stable_leaf_def edges_for_def fileChanged_eq inspectDependencies_eq
       current_hash_def differs_def
       split: option.splits bool.splits find_result.splits)

lemma stable_leaf_updateGraph:
  "stable_leaf env A s \<Longrightarrow> updateGraph fuel env p s = Some out \<Longrightarrow>
     stable_leaf env A (state_of out)"
  using updateGraph_invariant[of "stable_leaf env A" env s fuel p out] stable_leaf_edges_for
  by blast

lemma stable_leaf_dependenciesChanged:
  assumes "stable_leaf env A s" "dependenciesChanged fuel env p parents s = Some out"
  shows "stable_leaf env A (state_of out)"
proof -
  have "stable_leaf env A (state_of out) \<and> (\<forall>v s'. out = Return v s' \<longrightarrow> (p = A \<longrightarrow> \<not> v))"
  proof (rule dependenciesChanged_verdicts[of "stable_leaf env A" env "\<lambda>p v. p = A \<longrightarrow> \<not> v"
        "\<lambda>ps p. True" s parents p fuel out])
    show "stable_leaf env A (state_of (fileChanged env q s'))" if "stable_leaf env A s'" for q s'
      using that by (rule stable_leaf_fileChanged)
    show "stable_leaf env A (s'\<lparr>s_file_status := (s_file_status s')(q \<mapsto> v)\<rparr>)"
      if "stable_leaf env A s'" "q = A \<longrightarrow> \<not> v" for q v s'
      using that by (auto simp: stable_leaf_def)
    show "q = A \<longrightarrow> \<not> v" if "stable_leaf env A s'" "s_file_status s' q = Some v" for q v s'
      using that by (auto simp: stable_leaf_def)
    show "q = A \<longrightarrow> \<not> True" if "stable_leaf env A s'" "fileChanged env q s' = Return True s1"
      for q s' s1
      using that stable_leaf_own by blast
    show "q = A \<longrightarrow> \<not> v"
      if "stable_leaf env A s'" "fileChanged env q s' = Return False s1" "s_graph s1 q = Some cs"
        "if v then \<exists>f\<in>set cs. f \<notin> set (ps @ [q]) \<and> (f = A \<longrightarrow> \<not> True)
         else \<forall>f\<in>set cs. f \<notin> set (ps @ [q]) \<longrightarrow> f = A \<longrightarrow> \<not> False"
      for q ps s' s1 cs v
    proof
      assume "q = A"
      from that(1,2) have "stable_leaf env A s1"
        using stable_leaf_fileChanged[of env A s' q] by simp
      with that(3) \<open>q = A\<close> have "cs = []" by (auto simp: stable_leaf_def)
      with that(4) show "\<not> v" by (cases v) auto
    qed
  qed (use assms in auto)
  then show ?thesis ..
qed

lemma stable_leaf_run:
  "stable_leaf env A s \<Longrightarrow> run env evs s = Some s' \<Longrightarrow> stable_leaf env A s'"
proof (rule run_invariant[of "stable_leaf env A" env s evs s'])
  show "stable_leaf env A (afterTest t s1)" if "stable_leaf env A s1" for t s1
    using that by (simp add: stable_leaf_def afterTest_def)
qed (auto intro: stable_leaf_updateGraph stable_leaf_dependenciesChanged)

lemma stable_leaf_verdict:
  assumes "stable_leaf env A s"
  shows "\<exists>s1 s2. updateGraph (Suc fuel) env A s = Some (Return () s1) \<and>
           dependenciesChanged (Suc fuel) env A [] s1 = Some (Return False s2) \<and>
           s_graph s2 A = s_known_graph s A \<and> resolver_calls s2 = resolver_calls s"
proof -
  from assms obtain h where h: "file_md5 env A = Some h" by (auto simp: stable_leaf_def)
  define s1 where "s1 = (if s_graph s A = None
      then s\<lparr>s_hashes := (s_hashes s)(A \<mapsto> h), s_graph := (s_graph s)(A \<mapsto> [])\<rparr> else s)"
  have u: "updateGraph (Suc fuel) env A s = Some (Return () s1)"
    using assms h
    by (auto simp: updateGraph_Suc edges_for_def fileChanged_eq current_hash_def differs_def
        stable_leaf_def s1_def)
  have st1: "stable_leaf env A s1" using stable_leaf_updateGraph[OF assms u] by simp
  have g1: "s_graph s1 A = Some []" using assms by (auto simp: s1_def stable_leaf_def)
  define s2 where "s2 = (if s_file_status s1 A = None
      then s1\<lparr>s_hashes := (s_hashes s1)(A \<mapsto> h), s_file_status := (s_file_status s1)(A \<mapsto> False)\<rparr>
      else s1)"
  have d: "dependenciesChanged (Suc fuel) env A [] s1 = Some (Return False s2)"
  proof (cases "s_file_status s1 A")
    case None
    with st1 h g1 show ?thesis
      by (auto simp: dependenciesChanged.simps fileChanged_eq current_hash_def differs_def
          stable_leaf_def s2_def)
  next
    case (Some v)
    with st1 have "\<not> v" by (auto simp: stable_leaf_def)
    with Some show ?thesis by (simp add: dependenciesChanged.simps s2_def)
  qed
  have "s_graph s2 A = s_known_graph s A" "resolver_calls s2 = resolver_calls s"
    using assms g1 by (auto simp: s2_def s1_def stable_leaf_def)
  with u d show ?thesis by blast
qed

text \<open>
  C4. Let the cache record \<open>A\<close> with the digest the file has now and with an empty
  dependency list. Wherever the next run stands, the resolver has not been called on
  \<open>A\<close>; and a query for a unit whose source is \<open>A\<close>, made there with any positive
  recursion depth, answers \<^verbatim>\<open>False\<close> (skip), takes the edge list of \<open>A\<close> from the
  cache, and calls the resolver on nothing.
\<close>

theorem stable_leaf_skipped:
  "stored_cache env = Loaded (Some known_hashes) (Some known_graph) \<and>
   known_graph A = Some [] \<and> file_md5 env A \<noteq> None \<and> known_hashes A = file_md5 env A \<and>
   run env evs (started env) = Some s \<longrightarrow>
     A \<notin> fst ` set (resolver_calls s) \<and>
     (getsourcefile env u = Inr (Some A) \<longrightarrow>
        (\<exists>s'. wantModule (Suc fuel) env u s = Some (Return (Some False) s') \<and>
              wantClass (Suc fuel) env u s = Some (Return (Some False) s') \<and>
              s_graph s' A = known_graph A \<and> resolver_calls s' = resolver_calls s))"
proof (intro impI, elim conjE)
  assume c: "stored_cache env = Loaded (Some known_hashes) (Some known_graph)"
    and kg: "known_graph A = Some []" and r: "file_md5 env A \<noteq> None"
    and kh: "known_hashes A = file_md5 env A"
    and run: "run env evs (started env) = Some s"
  from c have "started env =
      initial\<lparr>s_known_hashes := known_hashes, s_known_graph := known_graph\<rparr>"
    by (simp add: started_def configure_def)
  with kg r kh have "stable_leaf env A (started env)"
    by (simp add: stable_leaf_def initial_def)
  from stable_leaf_run[OF this run] have st: "stable_leaf env A s" .
  have kgs: "s_known_graph s A = known_graph A" using st kg by (simp add: stable_leaf_def)
  from stable_leaf_verdict[OF st, of fuel] obtain s1 s2 where
    "updateGraph (Suc fuel) env A s = Some (Return () s1)"
    "dependenciesChanged (Suc fuel) env A [] s1 = Some (Return False s2)"
    "s_graph s2 A = s_known_graph s A" "resolver_calls s2 = resolver_calls s"
    by blast
  with kgs have "getsourcefile env u = Inr (Some A) \<longrightarrow>
        (\<exists>s'. wantModule (Suc fuel) env u s = Some (Return (Some False) s') \<and>
              wantClass (Suc fuel) env u s = Some (Return (Some False) s') \<and>
              s_graph s' A = known_graph A \<and> resolver_calls s' = resolver_calls s)"
    by (auto simp: wantModule_def wantClass_def)
  with st show "A \<notin> fst ` set (resolver_calls s) \<and>
     (getsourcefile env u = Inr (Some A) \<longrightarrow>
        (\<exists>s'. wantModule (Suc fuel) env u s = Some (Return (Some False) s') \<and>
              wantClass (Suc fuel) env u s = Some (Return (Some False) s') \<and>
              s_graph s' A = known_graph A \<and> resolver_calls s' = resolver_calls s))"
    by (simp add: stable_leaf_def)
qed


lemma leaf_query_a:
  "wantModule (Suc 0) leaf_env (Module ''a'') (started leaf_env) =
     Some (Return (Some False) leaf_after_a)"
  unfolding started_leaf
  by (simp add: wantModule_def leaf_env_fields initial_def leaf_after_a_def
      updateGraph.simps dependenciesChanged.simps fileChanged_def file_hash_def differs_def)

theorem stable_leaf_skipped_witness:
  "run leaf_env [WantModule (Suc 0) (Module ''a'')] (started leaf_env) = Some leaf_after_a \<and>
   ''a.py'' \<notin> fst ` set (resolver_calls leaf_after_a) \<and>
   (\<exists>s'. wantClass (Suc 0) leaf_env (Class ''A'') leaf_after_a = Some (Return (Some False) s') \<and>
        s_graph s' ''a.py'' = Some [] \<and> resolver_calls s' = resolver_calls leaf_after_a)"
proof -
  have r: "run leaf_env [WantModule (Suc 0) (Module ''a'')] (started leaf_env) = Some leaf_after_a"
    by (simp add: leaf_query_a)
  show ?thesis
    using r stable_leaf_skipped [of leaf_env "[''a.py'' \<mapsto> ''11'']" "[''a.py'' \<mapsto> []]" "''a.py''"
      "[WantModule (Suc 0) (Module ''a'')]" leaf_after_a "Class ''A''" 0]
    by (auto simp: leaf_env_fields)
qed

section \<open>An unchanged cycle of two files\<close>

lemma unchanged_cycle_sym: "unchanged_cycle env A B s \<longleftrightarrow> unchanged_cycle env B A s"
  by (auto simp: unchanged_cycle_def)

lemma unchanged_cycle_fileChanged:
  "unchanged_cycle env A B s \<Longrightarrow> unchanged_cycle env A B (state_of (fileChanged env p s))"
  by (auto simp: unchanged_cycle_def fileChanged_eq current_hash_def split: option.splits)

lemma unchanged_cycle_own:
  "unchanged_cycle env A B s \<Longrightarrow> fileChanged env A s = Return v s1 \<Longrightarrow> \<not> v"
  by (auto simp: unchanged_cycle_def fileChanged_eq current_hash_def differs_def
      split: option.splits)

lemma unchanged_cycle_edges_for:
  "unchanged_cycle env A B s \<Longrightarrow> p \<noteq> A \<Longrightarrow> p \<noteq> B \<Longrightarrow>
     unchanged_cycle env A B (state_of (edges_for env p s))"
  by (auto simp: unchanged_cycle_def edges_for_def fileChanged_eq inspectDependencies_eq
       current_hash_def differs_def
       split: option.splits bool.splits find_result.splits)

text \<open>
  Visiting one file of the cycle visits the other and comes back: depth three is needed
  and is enough.
\<close>

lemma unchanged_cycle_visit:
  assumes "unchanged_cycle env A B s" "s_graph s A = None"
  shows "updateGraph fuel env A s =
     (if fuel < 3 then None
      else Some (Return ()
        (s\<lparr>s_hashes := (s_hashes s)(A := file_md5 env A, B := file_md5 env B),
           s_graph := (s_graph s)(A \<mapsto> [B], B \<mapsto> [A])\<rparr>)))"
proof -
  from assms obtain hA hB where h: "file_md5 env A = Some hA" "file_md5 env B = Some hB"
    by (auto simp: unchanged_cycle_def)
  from assms have gB: "s_graph s B = None" and ne: "A \<noteq> B"
    by (auto simp: unchanged_cycle_def)
  have eA: "edges_for env A s = Return [B]
      (s\<lparr>s_hashes := (s_hashes s)(A \<mapsto> hA), s_graph := (s_graph s)(A \<mapsto> [B])\<rparr>)"
    using assms h
    by (auto simp: unchanged_cycle_def edges_for_def fileChanged_eq current_hash_def differs_def)
  have eB: "edges_for env B (s\<lparr>s_hashes := (s_hashes s)(A \<mapsto> hA), s_graph := (s_graph s)(A \<mapsto> [B])\<rparr>)
      = Return [A] (s\<lparr>s_hashes := (s_hashes s)(A \<mapsto> hA, B \<mapsto> hB),
                      s_graph := (s_graph s)(A \<mapsto> [B], B \<mapsto> [A])\<rparr>)"
    using assms h
    by (auto simp: unchanged_cycle_def edges_for_def fileChanged_eq current_hash_def differs_def)
  consider "fuel = 0" | "fuel = Suc 0" | "fuel = Suc (Suc 0)" | n where "fuel = Suc (Suc (Suc n))"
    by (metis not0_implies_Suc)
  then show ?thesis
  proof cases
    case 4
    then show ?thesis
      using assms(2) gB ne h eA eB by (simp add: updateGraph_Suc)
  qed (use assms(2) gB ne eA eB in \<open>simp_all add: updateGraph_Suc\<close>)
qed

lemma unchanged_cycle_updateGraph_member:
  assumes "unchanged_cycle env A B s" "updateGraph fuel env A s = Some out"
  shows "unchanged_cycle env A B (state_of out) \<and> s_graph (state_of out) A = Some [B] \<and>
         (\<exists>s1. out = Return () s1)"
proof (cases "s_graph s A")
  case None
  with assms unchanged_cycle_visit[OF assms(1) None, of fuel] show ?thesis
    by (auto simp: unchanged_cycle_def split: if_splits)
next
  case (Some fs)
  with assms show ?thesis
    by (cases fuel) (auto simp: updateGraph_Suc unchanged_cycle_def)
qed

lemma unchanged_cycle_updateGraph:
  assumes "unchanged_cycle env A B s" "updateGraph fuel env p s = Some out"
  shows "unchanged_cycle env A B (state_of out)"
proof (rule updateGraph_invariant_but[of "unchanged_cycle env A B" "{A, B}" env s fuel p out])
  show "unchanged_cycle env A B (state_of (edges_for env q s'))"
    if "unchanged_cycle env A B s'" "q \<notin> {A, B}" for q s'
    using that unchanged_cycle_edges_for by auto
  show "unchanged_cycle env A B (state_of out')"
    if "unchanged_cycle env A B s'" "q \<in> {A, B}" "updateGraph n env q s' = Some out'"
    for n q s' out'
    using that unchanged_cycle_updateGraph_member[of env A B s' n out']
      unchanged_cycle_updateGraph_member[of env B A s' n out'] unchanged_cycle_sym[of env A B]
    by auto
qed (use assms in auto)

lemma unchanged_cycle_dependenciesChanged:
  assumes "unchanged_cycle env A B s" "dependenciesChanged fuel env p parents s = Some out"
  shows "unchanged_cycle env A B (state_of out) \<and>
         (\<forall>v s'. out = Return v s' \<longrightarrow> p \<in> {A, B} \<longrightarrow> \<not> v)"
proof (rule dependenciesChanged_verdicts[of "unchanged_cycle env A B" env
      "\<lambda>p v. p \<in> {A, B} \<longrightarrow> \<not> v" "\<lambda>ps p. True" s parents p fuel out])
  show "unchanged_cycle env A B (state_of (fileChanged env q s'))"
    if "unchanged_cycle env A B s'" for q s'
    using that by (rule unchanged_cycle_fileChanged)
  show "unchanged_cycle env A B (s'\<lparr>s_file_status := (s_file_status s')(q \<mapsto> v)\<rparr>)"
    if "unchanged_cycle env A B s'" "q \<in> {A, B} \<longrightarrow> \<not> v" for q v s'
    using that by (auto simp: unchanged_cycle_def)
  show "q \<in> {A, B} \<longrightarrow> \<not> v" if "unchanged_cycle env A B s'" "s_file_status s' q = Some v"
    for q v s'
    using that by (auto simp: unchanged_cycle_def)
  show "q \<in> {A, B} \<longrightarrow> \<not> True"
    if "unchanged_cycle env A B s'" "fileChanged env q s' = Return True s1" for q s' s1
    using that unchanged_cycle_own[of env A B s' True s1] unchanged_cycle_own[of env B A s' True s1]
      unchanged_cycle_sym[of env A B] by auto
  show "q \<in> {A, B} \<longrightarrow> \<not> v"
    if "unchanged_cycle env A B s'" "fileChanged env q s' = Return False s1"
      "s_graph s1 q = Some cs"
      "if v then \<exists>f\<in>set cs. f \<notin> set (ps @ [q]) \<and> (f \<in> {A, B} \<longrightarrow> \<not> True)
       else \<forall>f\<in>set cs. f \<notin> set (ps @ [q]) \<longrightarrow> f \<in> {A, B} \<longrightarrow> \<not> False"
    for q ps s' s1 cs v
  proof
    assume q: "q \<in> {A, B}"
    from that(1,2) have "unchanged_cycle env A B s1"
      using unchanged_cycle_fileChanged[of env A B s' q] by simp
    with that(3) q have "set cs \<subseteq> {A, B}" by (auto simp: unchanged_cycle_def)
    with that(4) show "\<not> v" by (cases v) auto
  qed
qed (use assms in auto)

lemma unchanged_cycle_run:
  "unchanged_cycle env A B s \<Longrightarrow> run env evs s = Some s' \<Longrightarrow> unchanged_cycle env A B s'"
proof (rule run_invariant[of "unchanged_cycle env A B" env s evs s'])
  show "unchanged_cycle env A B (afterTest t s1)" if "unchanged_cycle env A B s1" for t s1
    using that by (simp add: unchanged_cycle_def afterTest_def)
  show "unchanged_cycle env A B (state_of out)"
    if "unchanged_cycle env A B s1" "dependenciesChanged fuel env p [] s1 = Some out"
    for fuel p s1 out
    using unchanged_cycle_dependenciesChanged[OF that] by simp
qed (auto intro: unchanged_cycle_updateGraph)


lemma unchanged_cycle_asked:
  assumes "unchanged_cycle env A B s" "s_graph s A = Some [B]"
  shows "\<exists>v s2. dependenciesChanged (Suc (Suc fuel)) env A parents s = Some (Return v s2)"
proof -
  from assms obtain hA hB where h: "file_md5 env A = Some hA" "file_md5 env B = Some hB"
    by (auto simp: unchanged_cycle_def)
  from assms have gB: "s_graph s B = Some [A]" and ne: "A \<noteq> B"
    by (auto simp: unchanged_cycle_def)
  show ?thesis
  proof (cases "s_file_status s A")
    case (Some v)
    then show ?thesis by (simp add: dependenciesChanged.simps)
  next
    case None
    define s1 where "s1 = s\<lparr>s_hashes := (s_hashes s)(A \<mapsto> hA)\<rparr>"
    have fA: "fileChanged env A s = Return False s1"
      using assms h by (auto simp: unchanged_cycle_def fileChanged_eq current_hash_def
          differs_def s1_def)
    have "\<exists>v s2. any_changed (Suc fuel) env [B] (parents @ [A]) s1 = Some (Return v s2)"
    proof (cases "B \<in> set (parents @ [A])")
      case True
      then show ?thesis by auto
    next
      case notin: False
      have "\<exists>v s2. dependenciesChanged (Suc fuel) env B (parents @ [A]) s1 = Some (Return v s2)"
      proof (cases "s_file_status s1 B")
        case (Some v)
        then show ?thesis by (simp add: dependenciesChanged.simps)
      next
        case nB: None
        define s2 where "s2 = s1\<lparr>s_hashes := (s_hashes s1)(B \<mapsto> hB)\<rparr>"
        have fB: "fileChanged env B s1 = Return False s2"
          using assms h ne by (auto simp: unchanged_cycle_def fileChanged_eq current_hash_def
              differs_def s1_def s2_def)
        have "s_graph s2 B = Some [A]" using gB by (simp add: s1_def s2_def)
        with nB fB show ?thesis by (auto simp: dependenciesChanged.simps)
      qed
      then obtain v s2 where
        "dependenciesChanged (Suc fuel) env B (parents @ [A]) s1 = Some (Return v s2)" by blast
      with notin show ?thesis by (cases v) auto
    qed
    then obtain v s2 where
      "any_changed (Suc fuel) env [B] (parents @ [A]) s1 = Some (Return v s2)" by blast
    moreover have "s_graph s1 A = Some [B]" using assms(2) by (simp add: s1_def)
    ultimately show ?thesis using None fA by (auto simp: dependenciesChanged.simps)
  qed
qed

lemma unchanged_cycle_verdict:
  assumes "unchanged_cycle env A B s"
  shows "\<exists>s1 s2. updateGraph (Suc (Suc (Suc fuel))) env A s = Some (Return () s1) \<and>
           dependenciesChanged (Suc (Suc (Suc fuel))) env A [] s1 = Some (Return False s2)"
proof -
  have "\<exists>out. updateGraph (Suc (Suc (Suc fuel))) env A s = Some out"
    using unchanged_cycle_visit[OF assms, of "Suc (Suc (Suc fuel))"]
    by (cases "s_graph s A") (auto simp: updateGraph_Suc)
  then obtain out where u: "updateGraph (Suc (Suc (Suc fuel))) env A s = Some out" by blast
  from unchanged_cycle_updateGraph_member[OF assms u] obtain s1 where
    s1: "out = Return () s1" "unchanged_cycle env A B s1" "s_graph s1 A = Some [B]" by auto
  from unchanged_cycle_asked[OF s1(2,3), of "Suc fuel" "[]"] obtain v s2 where
    d: "dependenciesChanged (Suc (Suc (Suc fuel))) env A [] s1 = Some (Return v s2)" by blast
  from unchanged_cycle_dependenciesChanged[OF s1(2) d] have "\<not> v" by simp
  with u s1(1) d show ?thesis by auto
qed

text \<open>
  C2. Let the cache record two distinct files \<open>A\<close> and \<open>B\<close> as each other's only
  dependency, each with the digest it has now. Wherever the next run stands,
  \<^verbatim>\<open>updateGraph(A)\<close> with recursion depth three or more returns, the
  \<^verbatim>\<open>dependenciesChanged(A)\<close> that follows returns \<^verbatim>\<open>False\<close> ("unchanged"), and so
  the query for a unit whose source is \<open>A\<close> returns \<^verbatim>\<open>False\<close>: the unit is skipped.
  Depth three is all the recursion through the cycle needs.
\<close>

theorem cycle_terminates_unchanged:
  "stored_cache env = Loaded (Some known_hashes) (Some known_graph) \<and> A \<noteq> B \<and>
   known_graph A = Some [B] \<and> known_graph B = Some [A] \<and>
   file_md5 env A \<noteq> None \<and> known_hashes A = file_md5 env A \<and>
   file_md5 env B \<noteq> None \<and> known_hashes B = file_md5 env B \<and>
   run env evs (started env) = Some s \<longrightarrow>
     (\<exists>s1 s2. updateGraph (Suc (Suc (Suc fuel))) env A s = Some (Return () s1) \<and>
        dependenciesChanged (Suc (Suc (Suc fuel))) env A [] s1 = Some (Return False s2) \<and>
        (getsourcefile env u = Inr (Some A) \<longrightarrow>
           wantModule (Suc (Suc (Suc fuel))) env u s = Some (Return (Some False) s2) \<and>
           wantClass (Suc (Suc (Suc fuel))) env u s = Some (Return (Some False) s2)))"
proof (intro impI, elim conjE)
  assume c: "stored_cache env = Loaded (Some known_hashes) (Some known_graph)"
    and ne: "A \<noteq> B"
    and kg: "known_graph A = Some [B]" "known_graph B = Some [A]"
    and r: "file_md5 env A \<noteq> None" "file_md5 env B \<noteq> None"
    and kh: "known_hashes A = file_md5 env A" "known_hashes B = file_md5 env B"
    and run: "run env evs (started env) = Some s"
  from c have "started env =
      initial\<lparr>s_known_hashes := known_hashes, s_known_graph := known_graph\<rparr>"
    by (simp add: started_def configure_def)
  with ne kg r kh have "unchanged_cycle env A B (started env)"
    by (simp add: unchanged_cycle_def initial_def)
  from unchanged_cycle_run[OF this run] have st: "unchanged_cycle env A B s" .
  from unchanged_cycle_verdict[OF st, of fuel] obtain s1 s2 where
    v: "updateGraph (Suc (Suc (Suc fuel))) env A s = Some (Return () s1)"
    "dependenciesChanged (Suc (Suc (Suc fuel))) env A [] s1 = Some (Return False s2)"
    by blast
  then have "getsourcefile env u = Inr (Some A) \<longrightarrow>
      wantModule (Suc (Suc (Suc fuel))) env u s = Some (Return (Some False) s2) \<and>
      wantClass (Suc (Suc (Suc fuel))) env u s = Some (Return (Some False) s2)"
    by (simp add: wantModule_def wantClass_def)
  with v show "\<exists>s1 s2. updateGraph (Suc (Suc (Suc fuel))) env A s = Some (Return () s1) \<and>
        dependenciesChanged (Suc (Suc (Suc fuel))) env A [] s1 = Some (Return False s2) \<and>
        (getsourcefile env u = Inr (Some A) \<longrightarrow>
           wantModule (Suc (Suc (Suc fuel))) env u s = Some (Return (Some False) s2) \<and>
           wantClass (Suc (Suc (Suc fuel))) env u s = Some (Return (Some False) s2))"
    by blast
qed

lemma cycle_env_fields:
  "file_md5 cycle_env = [''a.py'' \<mapsto> ''11'', ''b.py'' \<mapsto> ''22'']"
  "getsourcefile cycle_env = (\<lambda>u. Inr ([Module ''a'' \<mapsto> ''a.py'', Module ''b'' \<mapsto> ''b.py''] u))"
  "stored_cache cycle_env =
     Loaded (Some [''a.py'' \<mapsto> ''11'', ''b.py'' \<mapsto> ''22''])
            (Some [''a.py'' \<mapsto> [''b.py''], ''b.py'' \<mapsto> [''a.py'']])"
  by (simp_all add: cycle_env_def disk_def fun_eq_iff)

theorem cycle_terminates_unchanged_witness:
  "run cycle_env [] (started cycle_env) = Some (started cycle_env) \<and>
   (\<exists>s2. wantModule (Suc (Suc (Suc 0))) cycle_env (Module ''a'') (started cycle_env) =
           Some (Return (Some False) s2))"
  using cycle_terminates_unchanged [of cycle_env "[''a.py'' \<mapsto> ''11'', ''b.py'' \<mapsto> ''22'']"
      "[''a.py'' \<mapsto> [''b.py''], ''b.py'' \<mapsto> [''a.py'']]" "''a.py''" "''b.py''" "[]"
      "started cycle_env" 0 "Module ''a''"]
  by (auto simp: cycle_env_fields)


section \<open>A chain whose last file changed\<close>

text \<open>What the straight-line part of a visit to \<open>p\<close> can touch.\<close>

lemma edges_for_frame:
  "s_known_hashes (state_of (edges_for env p s)) = s_known_hashes s \<and>
   s_known_graph (state_of (edges_for env p s)) = s_known_graph s \<and>
   (\<forall>q. q \<noteq> p \<longrightarrow> s_hashes (state_of (edges_for env p s)) q = s_hashes s q) \<and>
   (\<forall>q. q \<noteq> p \<longrightarrow> s_graph (state_of (edges_for env p s)) q = s_graph s q) \<and>
   (s_hashes (state_of (edges_for env p s)) p = s_hashes s p \<or>
    s_hashes s p = None \<and> s_hashes (state_of (edges_for env p s)) p = file_md5 env p)"
  by (auto simp: edges_for_def fileChanged_eq inspectDependencies_eq current_hash_def
      split: option.splits bool.splits find_result.splits)

text \<open>An unchanged path with a cached edge list gets that list.\<close>

lemma edges_for_reuse:
  assumes "file_md5 env p = Some h" "s_hashes s p = None \<or> s_hashes s p = Some h"
    and "s_known_hashes s p = Some h" "s_known_graph s p = Some files"
  shows "edges_for env p s =
     Return files (s\<lparr>s_hashes := (s_hashes s)(p \<mapsto> h), s_graph := (s_graph s)(p \<mapsto> files)\<rparr>)"
  using assms
  by (auto simp: edges_for_def fileChanged_eq current_hash_def differs_def)

lemma fileChanged_frame:
  "s_known_hashes (state_of (fileChanged env p s)) = s_known_hashes s \<and>
   s_known_graph (state_of (fileChanged env p s)) = s_known_graph s \<and>
   s_graph (state_of (fileChanged env p s)) = s_graph s \<and>
   s_file_status (state_of (fileChanged env p s)) = s_file_status s \<and>
   (\<forall>q. q \<noteq> p \<longrightarrow> s_hashes (state_of (fileChanged env p s)) q = s_hashes s q) \<and>
   (s_hashes (state_of (fileChanged env p s)) p = s_hashes s p \<or>
    s_hashes s p = None \<and> s_hashes (state_of (fileChanged env p s)) p = file_md5 env p)"
  by (auto simp: fileChanged_eq current_hash_def split: option.splits)

text \<open>
  The property of the chain survives any change of the state that leaves the cache and
  the memo alone, adds only true digests, and gives \<open>B\<close> its cached list, if any.
\<close>

lemma changed_chain_frame:
  assumes inv: "changed_chain env A B C s"
    and kh: "s_known_hashes s' = s_known_hashes s" and kg: "s_known_graph s' = s_known_graph s"
    and fs: "s_file_status s' = s_file_status s"
    and hs: "\<And>q. s_hashes s' q = s_hashes s q \<or> s_hashes s q = None \<and> s_hashes s' q = file_md5 env q"
    and gA: "s_graph s' A = s_graph s A \<or> s_graph s' A = Some [B] \<and> s_graph s' B = Some [C]"
    and gB: "s_graph s' B = s_graph s B \<or> s_graph s' B = Some [C]"
  shows "changed_chain env A B C s'"
proof -
  have hA: "s_hashes s' A = None \<or> s_hashes s' A = file_md5 env A"
    using inv hs[of A] by (auto simp: changed_chain_def)
  have hB: "s_hashes s' B = None \<or> s_hashes s' B = file_md5 env B"
    using inv hs[of B] by (auto simp: changed_chain_def)
  have hC: "s_hashes s' C = None \<or> s_hashes s' C = file_md5 env C"
    using inv hs[of C] by (auto simp: changed_chain_def)
  have g1: "s_graph s' A = None \<or> s_graph s' A = Some [B] \<and> s_graph s' B = Some [C]"
    using inv gA gB by (auto simp: changed_chain_def)
  have g2: "s_graph s' B = None \<or> s_graph s' B = Some [C]"
    using inv gB by (auto simp: changed_chain_def)
  from inv have rest: "A \<noteq> B \<and> A \<noteq> C \<and> B \<noteq> C \<and>
     file_md5 env A \<noteq> None \<and> s_known_hashes s A = file_md5 env A \<and>
     file_md5 env B \<noteq> None \<and> s_known_hashes s B = file_md5 env B \<and>
     file_md5 env C \<noteq> None \<and> s_known_hashes s C \<noteq> file_md5 env C \<and>
     s_known_graph s A = Some [B] \<and> s_known_graph s B = Some [C] \<and>
     s_file_status s A \<noteq> Some False \<and> s_file_status s B \<noteq> Some False \<and>
     s_file_status s C \<noteq> Some False"
    by (simp add: changed_chain_def)
  show ?thesis
    unfolding changed_chain_def kh kg fs using rest hA hB hC g1 g2 by simp
qed

lemma changed_chain_fileChanged:
  assumes "changed_chain env A B C s"
  shows "changed_chain env A B C (state_of (fileChanged env p s))"
proof (rule changed_chain_frame[OF assms])
  show "s_hashes (state_of (fileChanged env p s)) q = s_hashes s q \<or>
        s_hashes s q = None \<and> s_hashes (state_of (fileChanged env p s)) q = file_md5 env q" for q
    using fileChanged_frame[of env p s] by (cases "q = p") auto
qed (simp_all add: fileChanged_frame)

lemma changed_chain_memo:
  assumes "changed_chain env A B C s" "p \<in> {A, B, C} \<longrightarrow> v"
  shows "changed_chain env A B C (s\<lparr>s_file_status := (s_file_status s)(p \<mapsto> v)\<rparr>)"
  using assms unfolding changed_chain_def by simp

lemma changed_chain_edges_for:
  assumes "changed_chain env A B C s" "p \<noteq> A" "s_graph s p = None"
  shows "changed_chain env A B C (state_of (edges_for env p s))"
proof (rule changed_chain_frame[OF assms(1)])
  show "s_hashes (state_of (edges_for env p s)) q = s_hashes s q \<or>
        s_hashes s q = None \<and> s_hashes (state_of (edges_for env p s)) q = file_md5 env q" for q
    using edges_for_frame[of env p s] by (cases "q = p") auto
  show "s_graph (state_of (edges_for env p s)) A = s_graph s A \<or>
        s_graph (state_of (edges_for env p s)) A = Some [B] \<and>
        s_graph (state_of (edges_for env p s)) B = Some [C]"
    using edges_for_frame[of env p s] assms(2) by auto
  show "s_graph (state_of (edges_for env p s)) B = s_graph s B \<or>
        s_graph (state_of (edges_for env p s)) B = Some [C]"
  proof (cases "p = B")
    case False
    then show ?thesis using edges_for_frame[of env p s] by auto
  next
    case True
    from assms(1) obtain h where "file_md5 env B = Some h" "s_hashes s B = None \<or> s_hashes s B = Some h"
      "s_known_hashes s B = Some h" "s_known_graph s B = Some [C]"
      by (auto simp: changed_chain_def)
    from edges_for_reuse[OF this] True show ?thesis by simp
  qed
qed (simp_all add: edges_for_frame edges_for_file_status)


text \<open>
  Visiting \<open>A\<close> records \<open>A\<close> and at once \<open>B\<close>, before anything can raise; what comes
  after is a visit of lesser depth.
\<close>

lemma changed_chain_visit_A:
  assumes inv: "changed_chain env A B C s"
    and less: "\<And>k q s' out'. k < fuel \<Longrightarrow> changed_chain env A B C s' \<Longrightarrow>
        updateGraph k env q s' = Some out' \<Longrightarrow> changed_chain env A B C (state_of out')"
    and run: "updateGraph fuel env A s = Some out"
  shows "changed_chain env A B C (state_of out)"
proof (cases "s_graph s A = None")
  case False
  with run inv show ?thesis by (cases fuel) (auto simp: updateGraph_Suc)
next
  case True
  from inv obtain hA hB where
    A: "file_md5 env A = Some hA" "s_hashes s A = None \<or> s_hashes s A = Some hA"
       "s_known_hashes s A = Some hA" "s_known_graph s A = Some [B]" and
    B: "file_md5 env B = Some hB" "s_hashes s B = None \<or> s_hashes s B = Some hB"
       "s_known_hashes s B = Some hB" "s_known_graph s B = Some [C]" and
    ne: "A \<noteq> B"
    by (auto simp: changed_chain_def)
  define sA where "sA = s\<lparr>s_hashes := (s_hashes s)(A \<mapsto> hA), s_graph := (s_graph s)(A \<mapsto> [B])\<rparr>"
  have eA: "edges_for env A s = Return [B] sA"
    unfolding sA_def by (rule edges_for_reuse[OF A])
  from run obtain n where fuel: "fuel = Suc n" by (cases fuel) auto
  with run True eA have each: "updateGraph_each n env [B] sA = Some out"
    by (simp add: updateGraph_Suc)
  then obtain m where n: "n = Suc m" by (cases n) auto
  show ?thesis
  proof (cases "s_graph s B = None")
    case False
    with inv have gB: "s_graph s B = Some [C]" by (auto simp: changed_chain_def)
    with each n ne have "out = Return () sA" by (simp add: updateGraph_Suc sA_def)
    moreover have "changed_chain env A B C sA"
      by (rule changed_chain_frame[OF inv]) (use gB ne A in \<open>auto simp: sA_def\<close>)
    ultimately show ?thesis by simp
  next
    case gB: True
    define sB where "sB = sA\<lparr>s_hashes := (s_hashes sA)(B \<mapsto> hB), s_graph := (s_graph sA)(B \<mapsto> [C])\<rparr>"
    have eB: "edges_for env B sA = Return [C] sB"
      unfolding sB_def by (rule edges_for_reuse) (use B ne in \<open>auto simp: sA_def\<close>)
    have invB: "changed_chain env A B C sB"
      by (rule changed_chain_frame[OF inv]) (use ne A B in \<open>auto simp: sA_def sB_def\<close>)
    from each n gB ne eB obtain o2 where o2: "updateGraph_each m env [C] sB = Some o2"
      and out: "state_of out = state_of o2"
      by (cases "updateGraph_each m env [C] sB")
         (auto simp: updateGraph_Suc sA_def split: outcome.splits)
    have "changed_chain env A B C (state_of out')"
      if "changed_chain env A B C s'" "updateGraph m env q s' = Some out'" for q s' out'
      using less[of m s' q out'] that fuel n by simp
    from updateGraph_each_invariant[of "changed_chain env A B C" m env, OF this invB o2] out
    show ?thesis by simp
  qed
qed

lemma changed_chain_updateGraph:
  assumes "changed_chain env A B C s" "updateGraph fuel env p s = Some out"
  shows "changed_chain env A B C (state_of out)"
proof (rule updateGraph_invariant_but[of "changed_chain env A B C" "{A}" env s fuel p out])
  show "changed_chain env A B C (state_of (edges_for env q s'))"
    if "changed_chain env A B C s'" "q \<notin> {A}" "s_graph s' q = None" for q s'
    using that changed_chain_edges_for by auto
  show "changed_chain env A B C (state_of out')"
    if "changed_chain env A B C s'" "q \<in> {A}"
      "\<And>k q s' out'. k < n \<Longrightarrow> changed_chain env A B C s' \<Longrightarrow>
        updateGraph k env q s' = Some out' \<Longrightarrow> changed_chain env A B C (state_of out')"
      "updateGraph n env q s' = Some out'"
    for n q s' out'
    using changed_chain_visit_A[of env A B C s' n out'] that by auto
qed (use assms in auto)

lemma changed_chain_dependenciesChanged:
  assumes "changed_chain env A B C s" "chain_parents B C parents p"
    and "dependenciesChanged fuel env p parents s = Some out"
  shows "changed_chain env A B C (state_of out) \<and>
         (\<forall>v s'. out = Return v s' \<longrightarrow> p \<in> {A, B, C} \<longrightarrow> v)"
proof (rule dependenciesChanged_verdicts[of "changed_chain env A B C" env
      "\<lambda>p v. p \<in> {A, B, C} \<longrightarrow> v" "chain_parents B C" s parents p fuel out])
  show "changed_chain env A B C (state_of (fileChanged env q s'))"
    if "changed_chain env A B C s'" for q s'
    using that by (rule changed_chain_fileChanged)
  show "changed_chain env A B C (s'\<lparr>s_file_status := (s_file_status s')(q \<mapsto> v)\<rparr>)"
    if "changed_chain env A B C s'" "q \<in> {A, B, C} \<longrightarrow> v" for q v s'
    using that by (rule changed_chain_memo)
  show "q \<in> {A, B, C} \<longrightarrow> v" if "changed_chain env A B C s'" "s_file_status s' q = Some v"
    for q v s'
    using that by (cases v) (auto simp: changed_chain_def)
  show "q \<in> {A, B, C} \<longrightarrow> True" for q by simp
next
  fix q ps s' s1 cs f
  assume inv: "changed_chain env A B C s'" and pp: "chain_parents B C ps q"
    and fc: "fileChanged env q s' = Return False s1" and g: "s_graph s1 q = Some cs"
    and f: "f \<in> set cs" "f \<notin> set (ps @ [q])"
  from inv fc have qC: "q \<noteq> C"
    by (auto simp: changed_chain_def fileChanged_eq current_hash_def differs_def
        split: option.splits)
  from inv fc have inv1: "changed_chain env A B C s1"
    using changed_chain_fileChanged[of env A B C s' q] by simp
  show "chain_parents B C (ps @ [q]) f"
  proof (cases "q = B")
    case True
    with g inv1 have "cs = [C]" by (auto simp: changed_chain_def)
    with f pp qC show ?thesis by (auto simp: chain_parents_def)
  next
    case False
    with pp qC show ?thesis by (auto simp: chain_parents_def)
  qed
next
  fix q ps s' s1 cs v
  assume inv: "changed_chain env A B C s'" and pp: "chain_parents B C ps q"
    and fc: "fileChanged env q s' = Return False s1" and g: "s_graph s1 q = Some cs"
    and ch: "if v then \<exists>f\<in>set cs. f \<notin> set (ps @ [q]) \<and> (f \<in> {A, B, C} \<longrightarrow> True)
       else \<forall>f\<in>set cs. f \<notin> set (ps @ [q]) \<longrightarrow> f \<in> {A, B, C} \<longrightarrow> False"
  from inv fc have qC: "q \<noteq> C"
    by (auto simp: changed_chain_def fileChanged_eq current_hash_def differs_def
        split: option.splits)
  from inv fc have inv1: "changed_chain env A B C s1"
    using changed_chain_fileChanged[of env A B C s' q] by simp
  from inv have ne: "A \<noteq> B" "B \<noteq> C" by (auto simp: changed_chain_def)
  show "q \<in> {A, B, C} \<longrightarrow> v"
  proof (cases v)
    case True
    then show ?thesis by simp
  next
    case False
    with ch have all: "\<forall>f\<in>set cs. f \<notin> set (ps @ [q]) \<longrightarrow> f \<notin> {A, B, C}" by auto
    have "q \<noteq> A"
    proof
      assume "q = A"
      with g inv1 have "cs = [B]" by (auto simp: changed_chain_def)
      with all \<open>q = A\<close> ne have "B \<in> set ps" by auto
      with pp \<open>q = A\<close> qC show False by (auto simp: chain_parents_def)
    qed
    moreover have "q \<noteq> B"
    proof
      assume "q = B"
      with g inv1 have "cs = [C]" by (auto simp: changed_chain_def)
      with all \<open>q = B\<close> ne have "C \<in> set ps" by auto
      with pp show False by (auto simp: chain_parents_def)
    qed
    ultimately show ?thesis using qC by simp
  qed
qed (use assms in auto)

lemma changed_chain_run:
  "changed_chain env A B C s \<Longrightarrow> run env evs s = Some s' \<Longrightarrow> changed_chain env A B C s'"
proof (rule run_invariant[of "changed_chain env A B C" env s evs s'])
  show "changed_chain env A B C (afterTest t s1)" if "changed_chain env A B C s1" for t s1
    using that by (simp add: changed_chain_def afterTest_def)
  show "changed_chain env A B C (state_of out)"
    if "changed_chain env A B C s1" "dependenciesChanged fuel env p [] s1 = Some out"
    for fuel p s1 out
    using changed_chain_dependenciesChanged[OF that(1) _ that(2)]
    by (simp add: chain_parents_def)
qed (auto intro: changed_chain_updateGraph)


lemma changed_chain_hashes:
  assumes "changed_chain env A B C s"
  shows "\<exists>h. current_hash env s A = Some h \<and> \<not> differs s A h"
    and "\<exists>h. current_hash env s B = Some h \<and> \<not> differs s B h"
    and "\<exists>h. current_hash env s C = Some h \<and> differs s C h"
proof -
  from assms have a: "file_md5 env A \<noteq> None" "s_known_hashes s A = file_md5 env A"
      "s_hashes s A = None \<or> s_hashes s A = file_md5 env A"
    and b: "file_md5 env B \<noteq> None" "s_known_hashes s B = file_md5 env B"
      "s_hashes s B = None \<or> s_hashes s B = file_md5 env B"
    and c: "file_md5 env C \<noteq> None" "s_known_hashes s C \<noteq> file_md5 env C"
      "s_hashes s C = None \<or> s_hashes s C = file_md5 env C"
    by (simp_all add: changed_chain_def)
  from a show "\<exists>h. current_hash env s A = Some h \<and> \<not> differs s A h"
    by (auto simp: current_hash_def differs_def split: option.splits)
  from b show "\<exists>h. current_hash env s B = Some h \<and> \<not> differs s B h"
    by (auto simp: current_hash_def differs_def split: option.splits)
  from c show "\<exists>h. current_hash env s C = Some h \<and> differs s C h"
    by (auto simp: current_hash_def differs_def split: option.splits)
qed

lemma changed_chain_own:
  assumes "changed_chain env A B C s"
  shows "\<exists>s1. fileChanged env A s = Return False s1 \<and> changed_chain env A B C s1 \<and>
           s_graph s1 = s_graph s"
    and "\<exists>s1. fileChanged env B s = Return False s1 \<and> changed_chain env A B C s1 \<and>
           s_graph s1 = s_graph s"
proof -
  from changed_chain_hashes(1)[OF assms] obtain h where
    "fileChanged env A s = Return False (s\<lparr>s_hashes := (s_hashes s)(A \<mapsto> h)\<rparr>)"
    by (auto simp: fileChanged_eq)
  with changed_chain_fileChanged[OF assms, of A]
  show "\<exists>s1. fileChanged env A s = Return False s1 \<and> changed_chain env A B C s1 \<and>
           s_graph s1 = s_graph s" by simp
  from changed_chain_hashes(2)[OF assms] obtain h where
    "fileChanged env B s = Return False (s\<lparr>s_hashes := (s_hashes s)(B \<mapsto> h)\<rparr>)"
    by (auto simp: fileChanged_eq)
  with changed_chain_fileChanged[OF assms, of B]
  show "\<exists>s1. fileChanged env B s = Return False s1 \<and> changed_chain env A B C s1 \<and>
           s_graph s1 = s_graph s" by simp
qed

text \<open>The visits of the chain return, given that the resolver finds nothing in \<open>C\<close>.\<close>

lemma changed_chain_visit_returns:
  assumes inv: "changed_chain env A B C s" and fd: "find_dependencies env C = Found []"
  shows "\<exists>s1. updateGraph (Suc fuel) env C s = Some (Return () s1)"
    and "\<exists>s1. updateGraph (Suc (Suc fuel)) env B s = Some (Return () s1)"
    and "\<exists>s1. updateGraph (Suc (Suc (Suc fuel))) env A s = Some (Return () s1)"
proof -
  have visC: "\<exists>s1. updateGraph (Suc n) env C s' = Some (Return () s1)"
    if "changed_chain env A B C s'" for n s'
  proof (cases "s_graph s' C = None")
    case False
    then show ?thesis by (auto simp: updateGraph_Suc)
  next
    case True
    from changed_chain_hashes(3)[OF that] obtain h where
      "current_hash env s' C = Some h" "differs s' C h" by blast
    with fd have "\<exists>s1. edges_for env C s' = Return [] s1"
      by (auto simp: edges_for_def fileChanged_eq inspectDependencies_eq split: option.splits)
    with True show ?thesis by (auto simp: updateGraph_Suc)
  qed
  have visB: "\<exists>s1. updateGraph (Suc (Suc n)) env B s' = Some (Return () s1)"
    if inv': "changed_chain env A B C s'" for n s'
  proof (cases "s_graph s' B = None")
    case False
    then show ?thesis by (auto simp: updateGraph_Suc)
  next
    case True
    from inv' obtain h where B: "file_md5 env B = Some h" "s_hashes s' B = None \<or> s_hashes s' B = Some h"
      "s_known_hashes s' B = Some h" "s_known_graph s' B = Some [C]"
      by (auto simp: changed_chain_def)
    define sB where "sB = s'\<lparr>s_hashes := (s_hashes s')(B \<mapsto> h), s_graph := (s_graph s')(B \<mapsto> [C])\<rparr>"
    have eB: "edges_for env B s' = Return [C] sB"
      unfolding sB_def by (rule edges_for_reuse[OF B])
    have "changed_chain env A B C sB"
      using changed_chain_edges_for[OF inv' _ True] inv' eB by (auto simp: changed_chain_def)
    from visC[OF this, of n] obtain s1 where "updateGraph (Suc n) env C sB = Some (Return () s1)"
      by blast
    with True eB show ?thesis by (simp add: updateGraph_Suc[of "Suc n"])
  qed
  have visA: "\<exists>s1. updateGraph (Suc (Suc (Suc n))) env A s' = Some (Return () s1)"
    if inv': "changed_chain env A B C s'" for n s'
  proof (cases "s_graph s' A = None")
    case False
    then show ?thesis by (auto simp: updateGraph_Suc)
  next
    case True
    from inv' obtain h where A: "file_md5 env A = Some h" "s_hashes s' A = None \<or> s_hashes s' A = Some h"
      "s_known_hashes s' A = Some h" "s_known_graph s' A = Some [B]" and ne: "A \<noteq> B"
      by (auto simp: changed_chain_def)
    define sA where "sA = s'\<lparr>s_hashes := (s_hashes s')(A \<mapsto> h), s_graph := (s_graph s')(A \<mapsto> [B])\<rparr>"
    have eA: "edges_for env A s' = Return [B] sA"
      unfolding sA_def by (rule edges_for_reuse[OF A])
    show ?thesis
    proof (cases "s_graph s' B = None")
      case False
      with ne have "s_graph sA B \<noteq> None" by (simp add: sA_def)
      with True eA show ?thesis by (simp add: updateGraph_Suc)
    next
      case gB: True
      from inv' obtain hB where B: "file_md5 env B = Some hB"
        "s_hashes sA B = None \<or> s_hashes sA B = Some hB"
        "s_known_hashes sA B = Some hB" "s_known_graph sA B = Some [C]"
        using ne by (auto simp: changed_chain_def sA_def)
      define sB where "sB = sA\<lparr>s_hashes := (s_hashes sA)(B \<mapsto> hB), s_graph := (s_graph sA)(B \<mapsto> [C])\<rparr>"
      have eB: "edges_for env B sA = Return [C] sB"
        unfolding sB_def by (rule edges_for_reuse[OF B])
      have "changed_chain env A B C sB"
        by (rule changed_chain_frame[OF inv']) (use ne A B in \<open>auto simp: sA_def sB_def\<close>)
      from visC[OF this, of n] obtain s1 where
        "updateGraph (Suc n) env C sB = Some (Return () s1)" by blast
      moreover have "s_graph sA B = None" using gB ne by (simp add: sA_def)
      ultimately show ?thesis using True eA eB
        by (simp add: updateGraph_Suc[of "Suc (Suc n)"] updateGraph_Suc[of "Suc n"])
    qed
  qed
  from inv visC visB visA
  show "\<exists>s1. updateGraph (Suc fuel) env C s = Some (Return () s1)"
    and "\<exists>s1. updateGraph (Suc (Suc fuel)) env B s = Some (Return () s1)"
    and "\<exists>s1. updateGraph (Suc (Suc (Suc fuel))) env A s = Some (Return () s1)"
    by blast+
qed

text \<open>
  The verdicts of the chain. \<open>C\<close> is judged at depth one, from the memo or from its own
  hash; \<open>B\<close> and \<open>A\<close> once their edge lists are recorded.
\<close>

lemma changed_chain_asked_C:
  assumes "changed_chain env A B C s"
  shows "\<exists>s2. dependenciesChanged (Suc fuel) env C parents s = Some (Return True s2)"
proof (cases "s_file_status s C")
  case None
  from changed_chain_hashes(3)[OF assms] obtain h where
    "current_hash env s C = Some h" "differs s C h" by blast
  with None show ?thesis by (auto simp: dependenciesChanged.simps fileChanged_eq)
next
  case (Some v)
  with assms have v by (cases v) (auto simp: changed_chain_def)
  with Some show ?thesis by (auto simp: dependenciesChanged.simps)
qed

lemma changed_chain_asked_B:
  assumes inv: "changed_chain env A B C s" and g: "s_graph s B = Some [C]"
    and ps: "C \<notin> set parents"
  shows "\<exists>s2. dependenciesChanged (Suc (Suc fuel)) env B parents s = Some (Return True s2)"
proof (cases "s_file_status s B")
  case (Some v)
  with inv have v by (cases v) (auto simp: changed_chain_def)
  with Some show ?thesis by (auto simp: dependenciesChanged.simps)
next
  case None
  from changed_chain_own(2)[OF inv] obtain s1 where
    f: "fileChanged env B s = Return False s1" and i1: "changed_chain env A B C s1"
    and g1: "s_graph s1 = s_graph s" by blast
  from changed_chain_asked_C[OF i1, where fuel=fuel and parents="parents @ [B]"] obtain s2 where
    "dependenciesChanged (Suc fuel) env C (parents @ [B]) s1 = Some (Return True s2)" by blast
  moreover from inv have "B \<noteq> C" by (simp add: changed_chain_def)
  ultimately show ?thesis using None f g g1 ps
    by (auto simp: dependenciesChanged.simps(2)[of "Suc fuel" env B])
qed

lemma changed_chain_asked_A:
  assumes inv: "changed_chain env A B C s" and g: "s_graph s A \<noteq> None"
  shows "\<exists>s2. dependenciesChanged (Suc (Suc (Suc fuel))) env A [] s = Some (Return True s2)"
proof (cases "s_file_status s A")
  case (Some v)
  with inv have v by (cases v) (auto simp: changed_chain_def)
  with Some show ?thesis by (auto simp: dependenciesChanged.simps)
next
  case None
  from inv g have gA: "s_graph s A = Some [B]" and gB: "s_graph s B = Some [C]"
    and ne: "A \<noteq> B" "A \<noteq> C"
    by (auto simp: changed_chain_def)
  from changed_chain_own(1)[OF inv] obtain s1 where
    f: "fileChanged env A s = Return False s1" and i1: "changed_chain env A B C s1"
    and g1: "s_graph s1 = s_graph s" by blast
  from changed_chain_asked_B[OF i1, where parents="[] @ [A]" and fuel=fuel] gB g1 ne obtain s2 where
    "dependenciesChanged (Suc (Suc fuel)) env B ([] @ [A]) s1 = Some (Return True s2)" by auto
  with None f gA g1 ne show ?thesis
    by (auto simp: dependenciesChanged.simps(2)[of "Suc (Suc fuel)" env A])
qed

lemma changed_chain_verdicts:
  assumes inv: "changed_chain env A B C s" and fd: "find_dependencies env C = Found []"
  shows "verdict (Suc (Suc (Suc fuel))) env A s = Some True"
    and "verdict (Suc (Suc (Suc fuel))) env B s = Some True"
    and "verdict (Suc (Suc (Suc fuel))) env C s = Some True"
proof -
  from changed_chain_visit_returns(3)[OF inv fd, where fuel=fuel] obtain s1 where
    u: "updateGraph (Suc (Suc (Suc fuel))) env A s = Some (Return () s1)" by blast
  from changed_chain_updateGraph[OF inv u] have i1: "changed_chain env A B C s1" by simp
  from changed_chain_asked_A[OF i1 updateGraph_records[OF u], where fuel=fuel] u
  show "verdict (Suc (Suc (Suc fuel))) env A s = Some True"
    by (auto simp: verdict_def)
next
  from changed_chain_visit_returns(2)[OF inv fd, where fuel="Suc fuel"] obtain s1 where
    u: "updateGraph (Suc (Suc (Suc fuel))) env B s = Some (Return () s1)" by blast
  from changed_chain_updateGraph[OF inv u] have i1: "changed_chain env A B C s1" by simp
  with updateGraph_records[OF u] have "s_graph s1 B = Some [C]"
    by (auto simp: changed_chain_def)
  from changed_chain_asked_B[OF i1 this, where parents="[]" and fuel="Suc fuel"] u
  show "verdict (Suc (Suc (Suc fuel))) env B s = Some True"
    by (auto simp: verdict_def)
next
  from changed_chain_visit_returns(1)[OF inv fd, where fuel="Suc (Suc fuel)"] obtain s1 where
    u: "updateGraph (Suc (Suc (Suc fuel))) env C s = Some (Return () s1)" by blast
  from changed_chain_updateGraph[OF inv u] have i1: "changed_chain env A B C s1" by simp
  from changed_chain_asked_C[OF i1, where fuel="Suc (Suc fuel)" and parents="[]"] u
  show "verdict (Suc (Suc (Suc fuel))) env C s = Some True"
    by (auto simp: verdict_def)
qed


text \<open>
  C1. Let the cache record the chain \<open>A \<rightarrow> B \<rightarrow> C\<close>, let \<open>A\<close> and \<open>B\<close> have the
  digests the cache has for them and \<open>C\<close> another one, and let the resolver find no
  dependency in the new \<open>C\<close>. Wherever the next run stands, the verdicts for \<open>A\<close>,
  for \<open>B\<close> and for \<open>C\<close> are reached with recursion depth three and are "changed";
  the one for \<open>C\<close> is reached by \<^verbatim>\<open>dependenciesChanged\<close> at depth one, that is,
  without asking any dependency; and a query for a unit of one of the three files does not
  answer \<^verbatim>\<open>False\<close> but \<^verbatim>\<open>None\<close>: the unit is not skipped.
\<close>

theorem chain_change_propagates:
  "stored_cache env = Loaded (Some known_hashes) (Some known_graph) \<and>
   known_graph A = Some [B] \<and> known_graph B = Some [C] \<and>
   file_md5 env A \<noteq> None \<and> known_hashes A = file_md5 env A \<and>
   file_md5 env B \<noteq> None \<and> known_hashes B = file_md5 env B \<and>
   file_md5 env C \<noteq> None \<and> known_hashes C \<noteq> file_md5 env C \<and>
   find_dependencies env C = Found [] \<and>
   run env evs (started env) = Some s \<longrightarrow>
     verdict (Suc (Suc (Suc fuel))) env A s = Some True \<and>
     verdict (Suc (Suc (Suc fuel))) env B s = Some True \<and>
     verdict (Suc (Suc (Suc fuel))) env C s = Some True \<and>
     returned (dependenciesChanged (Suc 0) env C parents s) = Some True \<and>
     (getsourcefile env u \<in> {Inr (Some A), Inr (Some B), Inr (Some C)} \<longrightarrow>
        returned (wantModule (Suc (Suc (Suc fuel))) env u s) = Some None \<and>
        returned (wantClass (Suc (Suc (Suc fuel))) env u s) = Some None)"
proof (intro impI, elim conjE)
  assume c: "stored_cache env = Loaded (Some known_hashes) (Some known_graph)"
    and kg: "known_graph A = Some [B]" "known_graph B = Some [C]"
    and a: "file_md5 env A \<noteq> None" "known_hashes A = file_md5 env A"
    and b: "file_md5 env B \<noteq> None" "known_hashes B = file_md5 env B"
    and cc: "file_md5 env C \<noteq> None" "known_hashes C \<noteq> file_md5 env C"
    and fd: "find_dependencies env C = Found []"
    and run: "run env evs (started env) = Some s"
  from a b cc kg have ne: "A \<noteq> C" "B \<noteq> C" "A \<noteq> B" by auto
  from c have "started env =
      initial\<lparr>s_known_hashes := known_hashes, s_known_graph := known_graph\<rparr>"
    by (simp add: started_def configure_def)
  with ne kg a b cc have "changed_chain env A B C (started env)"
    by (simp add: changed_chain_def initial_def)
  from changed_chain_run[OF this run] have inv: "changed_chain env A B C s" .
  note v = changed_chain_verdicts[OF inv fd, of fuel]
  from changed_chain_asked_C[OF inv, of 0 parents]
  have d: "returned (dependenciesChanged (Suc 0) env C parents s) = Some True" by auto
  have "returned (wantModule (Suc (Suc (Suc fuel))) env u s) = Some None \<and>
        returned (wantClass (Suc (Suc (Suc fuel))) env u s) = Some None"
    if "getsourcefile env u \<in> {Inr (Some A), Inr (Some B), Inr (Some C)}"
    using that v want_returned[of env u "Suc (Suc (Suc fuel))" s] by auto
  with v d show "verdict (Suc (Suc (Suc fuel))) env A s = Some True \<and>
     verdict (Suc (Suc (Suc fuel))) env B s = Some True \<and>
     verdict (Suc (Suc (Suc fuel))) env C s = Some True \<and>
     returned (dependenciesChanged (Suc 0) env C parents s) = Some True \<and>
     (getsourcefile env u \<in> {Inr (Some A), Inr (Some B), Inr (Some C)} \<longrightarrow>
        returned (wantModule (Suc (Suc (Suc fuel))) env u s) = Some None \<and>
        returned (wantClass (Suc (Suc (Suc fuel))) env u s) = Some None)"
    by blast
qed

lemma chain_query_a:
  "wantModule (Suc (Suc (Suc 0))) chain_env (Module ''a'') (started chain_env) =
     Some (Return None chain_after_a)"
  unfolding started_chain
  by (simp add: wantModule_def chain_env_fields initial_def chain_after_a_def
      updateGraph.simps dependenciesChanged.simps fileChanged_def file_hash_def differs_def
      inspectDependencies_def)

theorem chain_change_propagates_witness:
  "run chain_env [WantModule (Suc (Suc (Suc 0))) (Module ''a'')] (started chain_env) =
     Some chain_after_a \<and>
   verdict (Suc (Suc (Suc 0))) chain_env ''a.py'' chain_after_a = Some True \<and>
   verdict (Suc (Suc (Suc 0))) chain_env ''b.py'' chain_after_a = Some True \<and>
   verdict (Suc (Suc (Suc 0))) chain_env ''c.py'' chain_after_a = Some True \<and>
   returned (dependenciesChanged (Suc 0) chain_env ''c.py'' [] chain_after_a) = Some True \<and>
   returned (wantModule (Suc (Suc (Suc 0))) chain_env (Module ''b'') chain_after_a) = Some None"
proof -
  have r: "run chain_env [WantModule (Suc (Suc (Suc 0))) (Module ''a'')] (started chain_env) =
      Some chain_after_a"
    by (simp add: chain_query_a)
  show ?thesis
    using r chain_change_propagates [of chain_env
      "[''a.py'' \<mapsto> ''11'', ''b.py'' \<mapsto> ''22'', ''c.py'' \<mapsto> ''33'']"
      "[''a.py'' \<mapsto> [''b.py''], ''b.py'' \<mapsto> [''c.py''], ''c.py'' \<mapsto> []]"
      "''a.py''" "''b.py''" "''c.py''" "[WantModule (Suc (Suc (Suc 0))) (Module ''a'')]"
      chain_after_a 0 "[]" "Module ''b''"]
    by (simp add: chain_env_fields)
qed


section \<open>The tables and the disk\<close>

lemma sound_tables_fileChanged:
  "sound_tables env s \<Longrightarrow> sound_tables env (state_of (fileChanged env p s))"
  by (auto simp: sound_tables_def fileChanged_eq current_hash_def split: option.splits)

lemma sound_tables_edges_for:
  "sound_tables env s \<Longrightarrow> sound_tables env (state_of (edges_for env p s))"
  by (auto simp: sound_tables_def edges_for_def fileChanged_eq inspectDependencies_eq
      current_hash_def split: option.splits bool.splits find_result.splits)

lemma sound_tables_updateGraph:
  "sound_tables env s \<Longrightarrow> updateGraph fuel env p s = Some out \<Longrightarrow>
     sound_tables env (state_of out)"
  using updateGraph_invariant[of "sound_tables env" env s fuel p out] sound_tables_edges_for
  by blast



lemma sound_tables_started: "sound_tables env (started env)"
  by (auto simp: sound_tables_def started_def configure_def initial_def
      split: cache_file.splits option.splits)














section \<open>The ignored files\<close>

lemma resolver_discipline_fileChanged:
  assumes "resolver_discipline env s"
  shows "resolver_discipline env (state_of (fileChanged env p s))"
proof -
  from assms have "sound_tables env (state_of (fileChanged env p s))"
    by (simp add: resolver_discipline_def sound_tables_fileChanged)
  with assms show ?thesis
    by (auto simp: resolver_discipline_def fileChanged_eq split: option.splits)
qed

lemma resolver_discipline_edges_for:
  assumes inv: "resolver_discipline env s" and g: "s_graph s p = None"
    and disk: "\<forall>q. file_md5 env q \<noteq> None \<longrightarrow> isfile env q"
  shows "resolver_discipline env (state_of (edges_for env p s))"
proof (cases "current_hash env s p")
  case None
  with inv show ?thesis by (simp add: edges_for_def fileChanged_eq)
next
  case (Some h)
  from inv have snd: "sound_tables env s" by (simp add: resolver_discipline_def)
  from sound_tables_edges_for[OF snd, of p]
  have snd': "sound_tables env (state_of (edges_for env p s))" .
  from Some snd have rd: "file_md5 env p = Some h"
    by (auto simp: current_hash_def sound_tables_def split: option.splits)
  with inv g have ni: "p \<notin> s_ignored_files s"
    by (auto simp: resolver_discipline_def)
  define s1 where "s1 = s\<lparr>s_hashes := (s_hashes s)(p \<mapsto> h)\<rparr>"
  have fc: "fileChanged env p s = Return (differs s p h) s1"
    using Some by (simp add: fileChanged_eq s1_def)
  from inv have parts:
    "\<forall>q\<in>s_ignored_files s. s_graph s q \<noteq> None \<or> file_md5 env q = None"
    "\<forall>c\<in>set (resolver_calls s). \<not> snd c"
    "\<forall>q\<in>s_ignored_files s. \<not> isfile env q \<or> find_dependencies env q = Raises_TypeError"
    "\<forall>q fs. s_graph s q = Some fs \<longrightarrow>
        s_known_graph s q = Some fs \<or> (\<forall>f\<in>set fs. isfile env f)"
    by (simp_all add: resolver_discipline_def)
  show ?thesis
  proof (cases "\<not> differs s p h \<and> s_known_graph s p \<noteq> None")
    case True
    then obtain files where k: "s_known_graph s p = Some files" by auto
    with True fc have "edges_for env p s =
        Return files (s1\<lparr>s_graph := (s_graph s1)(p \<mapsto> files)\<rparr>)"
      by (simp add: edges_for_def s1_def)
    with snd' parts k show ?thesis
      by (auto simp: resolver_discipline_def s1_def)
  next
    case False
    with fc have e: "edges_for env p s =
        (case inspectDependencies env p s1 of
           Raise e s2 \<Rightarrow> Raise e s2
         | Return files s2 \<Rightarrow> Return files (s2\<lparr>s_graph := (s_graph s2)(p \<mapsto> files)\<rparr>))"
      by (auto simp: edges_for_def s1_def split: bool.splits option.splits)
    from disk have unread: "file_md5 env q = None" if "\<not> isfile env q" for q
      using that by auto
    show ?thesis
    proof (cases "find_dependencies env p")
      case (Found files)
      with e ni have st: "state_of (edges_for env p s) =
          s\<lparr>s_hashes := (s_hashes s)(p \<mapsto> h),
            resolver_calls := resolver_calls s @ [(p, False)],
            s_ignored_files := s_ignored_files s \<union> {f \<in> set files. \<not> isfile env f},
            s_graph := (s_graph s)
              (p \<mapsto> filter (\<lambda>f. isfile env f \<and> f \<notin> s_ignored_files s) files)\<rparr>"
        by (simp add: inspectDependencies_eq s1_def)
      show ?thesis
        unfolding resolver_discipline_def
      proof (intro conjI)
        show "sound_tables env (state_of (edges_for env p s))" by (rule snd')
        show "\<forall>q\<in>s_ignored_files (state_of (edges_for env p s)).
            s_graph (state_of (edges_for env p s)) q \<noteq> None \<or> file_md5 env q = None"
          using parts(1) unread by (auto simp: st)
        show "\<forall>c\<in>set (resolver_calls (state_of (edges_for env p s))). \<not> snd c"
          using parts(2) by (auto simp: st)
        show "\<forall>q\<in>s_ignored_files (state_of (edges_for env p s)).
            \<not> isfile env q \<or> find_dependencies env q = Raises_TypeError"
          using parts(3) by (auto simp: st)
        show "\<forall>q fs. s_graph (state_of (edges_for env p s)) q = Some fs \<longrightarrow>
            s_known_graph (state_of (edges_for env p s)) q = Some fs \<or> (\<forall>f\<in>set fs. isfile env f)"
          using parts(4) by (auto simp: st)
      qed
    next
      case Raises_TypeError
      with e ni have st: "state_of (edges_for env p s) =
          s\<lparr>s_hashes := (s_hashes s)(p \<mapsto> h),
            resolver_calls := resolver_calls s @ [(p, False)],
            s_ignored_files := insert p (s_ignored_files s),
            s_graph := (s_graph s)(p \<mapsto> [])\<rparr>"
        by (simp add: inspectDependencies_eq s1_def)
      show ?thesis
        unfolding resolver_discipline_def
      proof (intro conjI)
        show "sound_tables env (state_of (edges_for env p s))" by (rule snd')
        show "\<forall>q\<in>s_ignored_files (state_of (edges_for env p s)).
            s_graph (state_of (edges_for env p s)) q \<noteq> None \<or> file_md5 env q = None"
          using parts(1) by (auto simp: st)
        show "\<forall>c\<in>set (resolver_calls (state_of (edges_for env p s))). \<not> snd c"
          using parts(2) by (auto simp: st)
        show "\<forall>q\<in>s_ignored_files (state_of (edges_for env p s)).
            \<not> isfile env q \<or> find_dependencies env q = Raises_TypeError"
          using parts(3) Raises_TypeError by (auto simp: st)
        show "\<forall>q fs. s_graph (state_of (edges_for env p s)) q = Some fs \<longrightarrow>
            s_known_graph (state_of (edges_for env p s)) q = Some fs \<or> (\<forall>f\<in>set fs. isfile env f)"
          using parts(4) by (auto simp: st)
      qed
    next
      case Raises_other
      with e ni have st: "state_of (edges_for env p s) =
          s\<lparr>s_hashes := (s_hashes s)(p \<mapsto> h),
            resolver_calls := resolver_calls s @ [(p, False)]\<rparr>"
        by (simp add: inspectDependencies_eq s1_def)
      show ?thesis
        unfolding resolver_discipline_def
      proof (intro conjI)
        show "sound_tables env (state_of (edges_for env p s))" by (rule snd')
      qed (use parts in \<open>auto simp: st\<close>)
    qed
  qed
qed


lemma resolver_discipline_run:
  assumes disk: "\<forall>q. file_md5 env q \<noteq> None \<longrightarrow> isfile env q"
    and inv: "resolver_discipline env s" and run: "run env evs s = Some s'"
  shows "resolver_discipline env s'"
proof (rule run_invariant[of "resolver_discipline env" env s evs s'])
  show "resolver_discipline env (state_of out)"
    if "resolver_discipline env s1" "updateGraph fuel env p s1 = Some out" for fuel p s1 out
    using updateGraph_invariant[of "resolver_discipline env" env s1 fuel p out]
      resolver_discipline_edges_for disk that by blast
  show "resolver_discipline env (state_of out)"
    if "resolver_discipline env s1" "dependenciesChanged fuel env p [] s1 = Some out"
    for fuel p s1 out
  proof (rule dependenciesChanged_invariant[of "resolver_discipline env" env s1 fuel p "[]" out])
    show "resolver_discipline env (s2\<lparr>s_file_status := (s_file_status s2)(q \<mapsto> v)\<rparr>)"
      if "resolver_discipline env s2" for q v s2
      using that by (simp add: resolver_discipline_def sound_tables_def)
  qed (use that resolver_discipline_fileChanged in auto)
  show "resolver_discipline env (afterTest t s1)" if "resolver_discipline env s1" for t s1
    using that by (simp add: resolver_discipline_def sound_tables_def afterTest_def)
qed (use inv run in auto)

lemma resolver_discipline_started: "resolver_discipline env (started env)"
  using sound_tables_started[of env]
  by (auto simp: resolver_discipline_def started_def configure_def initial_def
      split: cache_file.splits option.splits)

text \<open>
  C6, as the code has it. On a disk where only regular files can be read, wherever a
  run stands: no call of the resolver was made on a path that was ignored at the time of
  the call; a path is ignored only because it is no regular file or because the resolver
  raised \<^verbatim>\<open>TypeError\<close> on it; an edge list of the graph that is not the cached list
  of its path holds regular files only; and an edge list that the adapter returns holds
  regular files only, none of them ignored when the adapter returns. So what can sit in an
  edge list and be ignored is a file on which the resolver failed after the list was
  made, or an entry of a list copied from the cache, which is not filtered.
\<close>

theorem ignored_discipline:
  "(\<forall>q. file_md5 env q \<noteq> None \<longrightarrow> isfile env q) \<and> run env evs (started env) = Some s \<longrightarrow>
     (\<forall>c\<in>set (resolver_calls s). \<not> snd c) \<and>
     (\<forall>p\<in>s_ignored_files s. \<not> isfile env p \<or> find_dependencies env p = Raises_TypeError) \<and>
     (\<forall>p fs. s_graph s p = Some fs \<longrightarrow>
        s_known_graph s p = Some fs \<or> (\<forall>f\<in>set fs. isfile env f)) \<and>
     (\<forall>fs s1. inspectDependencies env path s = Return fs s1 \<longrightarrow>
        (\<forall>f\<in>set fs. isfile env f \<and> f \<notin> s_ignored_files s1))"
  (is "?H \<longrightarrow> _")
proof (intro impI conjI)
  assume ?H
  then have disk: "\<forall>q. file_md5 env q \<noteq> None \<longrightarrow> isfile env q"
    and run: "run env evs (started env) = Some s" by simp_all
  from resolver_discipline_run[OF disk resolver_discipline_started run]
  have inv: "resolver_discipline env s" .
  then show "\<forall>c\<in>set (resolver_calls s). \<not> snd c"
    and "\<forall>p\<in>s_ignored_files s. \<not> isfile env p \<or> find_dependencies env p = Raises_TypeError"
    and "\<forall>p fs. s_graph s p = Some fs \<longrightarrow>
        s_known_graph s p = Some fs \<or> (\<forall>f\<in>set fs. isfile env f)"
    by (simp_all add: resolver_discipline_def)
  show "\<forall>fs s1. inspectDependencies env path s = Return fs s1 \<longrightarrow>
        (\<forall>f\<in>set fs. isfile env f \<and> f \<notin> s_ignored_files s1)"
    by (auto simp: inspectDependencies_eq split: find_result.splits if_splits)
qed

theorem ignored_discipline_witness:
  "run cold_env [WantModule 3 (Module ''a'')] (started cold_env) = Some cold_after_a \<and>
   isfile cold_env ''a.py'' \<and> isfile cold_env ''x.py'' \<and>
   resolver_calls cold_after_a = [(''a.py'', False), (''x.py'', False)] \<and>
   s_ignored_files cold_after_a = {''x.py''} \<and>
   find_dependencies cold_env ''x.py'' = Raises_TypeError \<and>
   s_graph cold_after_a ''x.py'' = Some [] \<and>
   inspectDependencies cold_env ''a.py'' cold_after_a =
     Return [] (cold_after_a\<lparr>resolver_calls := resolver_calls cold_after_a @ [(''a.py'', False)]\<rparr>)"
proof -
  have d: "\<forall>q. file_md5 cold_env q \<noteq> None \<longrightarrow> isfile cold_env q"
    by (simp add: cold_env_fields)
  have r: "run cold_env [WantModule 3 (Module ''a'')] (started cold_env) = Some cold_after_a"
    by (simp add: started_cold cold_query_a)
  have i: "inspectDependencies cold_env ''a.py'' cold_after_a =
     Return [] (cold_after_a\<lparr>resolver_calls := resolver_calls cold_after_a @ [(''a.py'', False)]\<rparr>)"
    by (simp add: inspectDependencies_def cold_env_fields cold_after_a_def initial_def)
  have c: "resolver_calls cold_after_a = [(''a.py'', False), (''x.py'', False)]"
    "s_ignored_files cold_after_a = {''x.py''}" "s_graph cold_after_a ''x.py'' = Some []"
    by (simp_all add: cold_after_a_def initial_def)
  from ignored_discipline [of cold_env "[WantModule 3 (Module ''a'')]" cold_after_a "''a.py''"] d r
  show ?thesis using i c by (simp add: cold_env_fields)
qed

lemma reuse_env_fields:
  "file_md5 reuse_env = [''a.py'' \<mapsto> ''11'', ''x.py'' \<mapsto> ''22'']"
  "find_dependencies reuse_env ''x.py'' = Raises_TypeError"
  "getsourcefile reuse_env = (\<lambda>u. Inr ([Module ''a'' \<mapsto> ''a.py''] u))"
  "stored_cache reuse_env = Loaded (Some [''a.py'' \<mapsto> ''11'']) (Some [''a.py'' \<mapsto> [''x.py'']])"
  by (simp_all add: reuse_env_def disk_def fun_eq_iff)

lemma started_reuse:
  "started reuse_env =
     initial\<lparr>s_known_hashes := [''a.py'' \<mapsto> ''11''], s_known_graph := [''a.py'' \<mapsto> [''x.py'']]\<rparr>"
  by (simp add: started_def configure_def reuse_env_fields)

lemma reuse_query_a:
  "wantModule 3 reuse_env (Module ''a'') (started reuse_env) = Some (Return None reuse_after_a)"
  unfolding started_reuse
  by (simp add: wantModule_def reuse_env_fields numeral_3_eq_3 initial_def reuse_after_a_def
      updateGraph.simps dependenciesChanged.simps fileChanged_def file_hash_def differs_def
      inspectDependencies_def)

text \<open>
  Counterexample to C6 as the claim has it: an ignored path in an edge list of the
  graph. In the cold scenario the resolver lists the existing \<open>x.py\<close> for \<open>a.py\<close> and
  then fails on \<open>x.py\<close>; in the other scenario the list of \<open>a.py\<close> is copied from the
  cache and the resolver fails on its entry \<open>x.py\<close>. After the query for \<open>a\<close>,
  \<open>x.py\<close> is ignored and still is the edge of \<open>a.py\<close>.
\<close>

theorem ignored_edge_counterexample:
  "run cold_env [WantModule 3 (Module ''a'')] (started cold_env) = Some cold_after_a \<and>
   ''x.py'' \<in> s_ignored_files cold_after_a \<and>
   s_graph cold_after_a ''a.py'' = Some [''x.py''] \<and>
   run reuse_env [WantModule 3 (Module ''a'')] (started reuse_env) = Some reuse_after_a \<and>
   ''x.py'' \<in> s_ignored_files reuse_after_a \<and>
   s_graph reuse_after_a ''a.py'' = Some [''x.py''] \<and>
   s_known_graph reuse_after_a ''a.py'' = Some [''x.py'']"
  by (simp add: started_cold cold_query_a reuse_query_a)
     (simp add: cold_after_a_def reuse_after_a_def initial_def)


section \<open>Further properties\<close>

text \<open>
  X1. The graph and the hashes of a run are append-only, the ignored files only grow,
  and the loaded cache is never written: whatever the hooks of a run do, an entry of
  \<^verbatim>\<open>_graph\<close> or \<^verbatim>\<open>_hashes\<close> that was there is still there with the same value.
\<close>

theorem tables_append_only:
  "run env evs s = Some s' \<longrightarrow>
     s_graph s \<subseteq>\<^sub>m s_graph s' \<and> s_hashes s \<subseteq>\<^sub>m s_hashes s' \<and>
     s_ignored_files s \<subseteq> s_ignored_files s' \<and>
     s_known_graph s' = s_known_graph s \<and> s_known_hashes s' = s_known_hashes s"
  using run_grows[of env evs s s'] by (simp add: grows_def)

theorem tables_append_only_witness:
  "run cold_env [WantModule 3 (Module ''a'')] initial = Some cold_after_a \<and>
   s_graph initial \<subseteq>\<^sub>m s_graph cold_after_a \<and> s_hashes initial \<subseteq>\<^sub>m s_hashes cold_after_a \<and>
   s_known_hashes cold_after_a = s_known_hashes initial"
proof -
  have r: "run cold_env [WantModule 3 (Module ''a'')] initial = Some cold_after_a"
    by (simp add: cold_query_a)
  from tables_append_only [of cold_env "[WantModule 3 (Module ''a'')]" initial cold_after_a] r
  show ?thesis by simp
qed

text \<open>
  X2. When the resolver returns a list, the adapter returns, in the resolver's order,
  the entries that are regular files and were not ignored before the call, and it adds to
  the ignored files the entries that are no regular files.
\<close>

theorem adapter_filters:
  "find_dependencies env p = Found files \<longrightarrow>
     inspectDependencies env p s =
       Return (filter (\<lambda>f. isfile env f \<and> f \<notin> s_ignored_files s) files)
         (s\<lparr>resolver_calls := resolver_calls s @ [(p, p \<in> s_ignored_files s)],
            s_ignored_files := s_ignored_files s \<union> {f \<in> set files. \<not> isfile env f}\<rparr>)"
  by (simp add: inspectDependencies_eq)

theorem adapter_filters_witness:
  "find_dependencies cold_env ''a.py'' = Found [''x.py''] \<and>
   inspectDependencies cold_env ''a.py'' initial =
     Return [''x.py''] (initial\<lparr>resolver_calls := [(''a.py'', False)]\<rparr>)"
  using adapter_filters [of cold_env "''a.py''" "[''x.py'']" initial]
  by (simp add: cold_env_fields) (simp add: initial_def)

text \<open>
  X3. Failure invalidation. Let the test of module \<open>M\<close> fail in a run, let
  \<^verbatim>\<open>finalize\<close> dump the cache, and let the next run load that cache. Wherever the next
  run stands, a readable \<open>M\<close> is judged changed from its own hash test, whatever its
  content, and no query for a unit of \<open>M\<close> answers \<^verbatim>\<open>False\<close>.
\<close>

lemma never_known_dependenciesChanged:
  assumes "never_known M s" "dependenciesChanged fuel env p parents s = Some out"
  shows "never_known M (state_of out) \<and> (\<forall>v s'. out = Return v s' \<longrightarrow> p = M \<longrightarrow> v)"
proof (rule dependenciesChanged_verdicts[of "never_known M" env "\<lambda>p v. p = M \<longrightarrow> v"
      "\<lambda>ps p. True" s parents p fuel out])
  show "never_known M (state_of (fileChanged env q s'))" if "never_known M s'" for q s'
    using that by (auto simp: never_known_def fileChanged_eq split: option.splits)
  show "never_known M (s'\<lparr>s_file_status := (s_file_status s')(q \<mapsto> v)\<rparr>)"
    if "never_known M s'" "q = M \<longrightarrow> v" for q v s'
    using that by (auto simp: never_known_def)
  show "q = M \<longrightarrow> v" if "never_known M s'" "s_file_status s' q = Some v" for q v s'
    using that by (cases v) (auto simp: never_known_def)
  show "q = M \<longrightarrow> v"
    if "never_known M s'" "fileChanged env q s' = Return False s1" for q s' s1 v
    using that by (auto simp: never_known_def fileChanged_eq differs_def split: option.splits)
qed (use assms in auto)

lemma never_known_run: "never_known M s \<Longrightarrow> run env evs s = Some s' \<Longrightarrow> never_known M s'"
proof (rule run_invariant[of "never_known M" env s evs s'])
  show "never_known M (state_of out)"
    if "never_known M s1" "updateGraph fuel env p s1 = Some out" for fuel p s1 out
    using that updateGraph_grows[OF that(2)] updateGraph_file_status[OF that(2)]
    by (simp add: never_known_def grows_def)
  show "never_known M (state_of out)"
    if "never_known M s1" "dependenciesChanged fuel env p [] s1 = Some out" for fuel p s1 out
    using never_known_dependenciesChanged[OF that] by simp
  show "never_known M (afterTest t s1)" if "never_known M s1" for t s1
    using that by (simp add: never_known_def afterTest_def)
qed auto

theorem failed_module_changed_next_run:
  "passed t = Some False \<and> finalize env (afterTest t s) = Return d s' \<and>
   stored_cache env' = Loaded (Some (hashes d)) (Some (graph_of d)) \<and>
   file_md5 env' (address0 t) \<noteq> None \<and> run env' evs (started env') = Some s2 \<longrightarrow>
     returned (dependenciesChanged (Suc fuel) env' (address0 t) parents s2) = Some True \<and>
     (getsourcefile env' u = Inr (Some (address0 t)) \<longrightarrow>
        returned (wantModule fuel env' u s2) \<noteq> Some (Some False) \<and>
        returned (wantClass fuel env' u s2) \<noteq> Some (Some False))"
  (is "?H \<longrightarrow> _")
proof (intro impI conjI)
  assume ?H
  then have f: "passed t = Some False" and fin: "finalize env (afterTest t s) = Return d s'"
    and c: "stored_cache env' = Loaded (Some (hashes d)) (Some (graph_of d))"
    and rd: "file_md5 env' (address0 t) \<noteq> None"
    and run: "run env' evs (started env') = Some s2" by simp_all
  from f fin have "hashes d (address0 t) = None"
    by (auto simp: finalize_def Let_def pop_each_def afterTest_def split: if_splits)
  with c have "never_known (address0 t) (started env')"
    by (simp add: never_known_def started_def configure_def initial_def)
  from never_known_run[OF this run] have nk: "never_known (address0 t) s2" .
  show d1: "returned (dependenciesChanged (Suc fuel) env' (address0 t) parents s2) = Some True"
  proof (cases "s_file_status s2 (address0 t)")
    case None
    with nk rd show ?thesis
      by (auto simp: dependenciesChanged.simps fileChanged_eq current_hash_def differs_def
          never_known_def split: option.splits)
  next
    case (Some v)
    with nk have v by (cases v) (auto simp: never_known_def)
    with Some show ?thesis by (simp add: dependenciesChanged.simps)
  qed
  assume u: "getsourcefile env' u = Inr (Some (address0 t))"
  have "verdict fuel env' (address0 t) s2 \<noteq> Some False"
  proof (cases "updateGraph fuel env' (address0 t) s2")
    case None
    then show ?thesis by (simp add: verdict_def)
  next
    case (Some o1)
    show ?thesis
    proof (cases o1)
      case (Raise e s3)
      with Some show ?thesis by (simp add: verdict_def)
    next
      case (Return u1 s3)
      from nk updateGraph_grows[OF Some] updateGraph_file_status[OF Some] Return
      have nk3: "never_known (address0 t) s3" by (simp add: never_known_def grows_def)
      show ?thesis
      proof (cases "dependenciesChanged fuel env' (address0 t) [] s3")
        case None
        with Some Return show ?thesis by (simp add: verdict_def)
      next
        case d: (Some o2)
        from never_known_dependenciesChanged[OF nk3 d] Some Return d show ?thesis
          by (cases o2) (auto simp: verdict_def)
      qed
    qed
  qed
  then have "map_option (\<lambda>changed. if changed then None else Some False)
      (verdict fuel env' (address0 t) s2) \<noteq> Some (Some False)"
    by (cases "verdict fuel env' (address0 t) s2") (auto split: if_splits)
  with u want_returned[of env' u fuel s2]
  show "returned (wantModule fuel env' u s2) \<noteq> Some (Some False)"
    and "returned (wantClass fuel env' u s2) \<noteq> Some (Some False)" by auto
qed

lemma failed_env_fields:
  "file_md5 failed_env = [''a.py'' \<mapsto> ''11'']"
  "getsourcefile failed_env = (\<lambda>u. Inr ([Module ''a'' \<mapsto> ''a.py''] u))"
  "stored_cache failed_env = Loaded (Some Map.empty) (Some [''a.py'' \<mapsto> []])"
  by (simp_all add: failed_env_def disk_def fun_eq_iff)

theorem failed_module_changed_next_run_witness:
  "finalize leaf_env (afterTest \<lparr>passed = Some False, address0 = ''a.py''\<rparr> leaf_after_a) =
     Return \<lparr>hashes = Map.empty, graph_of = [''a.py'' \<mapsto> []]\<rparr>
       (leaf_after_a\<lparr>s_failed_test_modules := {''a.py''}, s_hashes := Map.empty\<rparr>) \<and>
   run failed_env [] (started failed_env) = Some (started failed_env) \<and>
   returned (dependenciesChanged (Suc 0) failed_env ''a.py'' [] (started failed_env)) = Some True"
proof -
  have fin: "finalize leaf_env (afterTest \<lparr>passed = Some False, address0 = ''a.py''\<rparr> leaf_after_a) =
     Return \<lparr>hashes = Map.empty, graph_of = [''a.py'' \<mapsto> []]\<rparr>
       (leaf_after_a\<lparr>s_failed_test_modules := {''a.py''}, s_hashes := Map.empty\<rparr>)"
    by (auto simp: finalize_def Let_def afterTest_def leaf_after_a_def initial_def
        leaf_env_fields setdefault_items_def pop_each_def fun_eq_iff)
  from failed_module_changed_next_run [of "\<lparr>passed = Some False, address0 = ''a.py''\<rparr>"
      leaf_env leaf_after_a "\<lparr>hashes = Map.empty, graph_of = [''a.py'' \<mapsto> []]\<rparr>"
      "leaf_after_a\<lparr>s_failed_test_modules := {''a.py''}, s_hashes := Map.empty\<rparr>"
      failed_env "[]" "started failed_env" 0 "[]" "Module ''a''"] fin
  show ?thesis by (simp add: failed_env_fields)
qed


section \<open>What an answer says about the dependency closure\<close>

lemma edges_mono: "s_graph s \<subseteq>\<^sub>m s_graph s' \<Longrightarrow> edges s \<subseteq> edges s'"
  by (auto simp: edges_def map_le_def dom_def)

lemma closed_reach:
  assumes le: "s_graph s \<subseteq>\<^sub>m s_graph s'"
    and cl: "\<forall>r. (q, r) \<in> (edges s)\<^sup>* \<longrightarrow> s_graph s r \<noteq> None"
  shows "(q, r) \<in> (edges s')\<^sup>* \<Longrightarrow> (q, r) \<in> (edges s)\<^sup>*"
proof (induction rule: rtrancl_induct)
  case base
  show ?case by simp
next
  case (step y z)
  from step.IH cl obtain cs where y: "s_graph s y = Some cs" by blast
  with le have "s_graph s' y = Some cs" by (auto simp: map_le_def dom_def)
  with step.hyps(2) y have "(y, z) \<in> edges s" by (auto simp: edges_def)
  with step.IH show ?case by (rule rtrancl_into_rtrancl)
qed

lemma nocycle_mono: "edges s \<subseteq> edges s' \<Longrightarrow> nocycle s' q \<Longrightarrow> nocycle s q"
  unfolding nocycle_def using rtrancl_mono[of "edges s" "edges s'"] trancl_mono[of _ "edges s" "edges s'"]
  by blast

lemma own_changed_cong:
  "s_known_hashes s' = s_known_hashes s \<Longrightarrow> own_changed env s' p = own_changed env s p"
  by (simp add: own_changed_def differs_def split: option.splits)

lemma unchanged_cong:
  "s_known_hashes s' = s_known_hashes s \<Longrightarrow> unchanged env s' p = unchanged env s p"
  by (simp add: unchanged_def differs_def split: option.splits)

lemma admissible_grows:
  assumes le: "s_graph s \<subseteq>\<^sub>m s_graph s'" and k: "s_known_hashes s' = s_known_hashes s"
    and a: "admissible env s q v"
  shows "admissible env s' q v"
proof (cases v)
  case True
  with a obtain r where r: "(q, r) \<in> (edges s)\<^sup>*" "own_changed env s r"
    by (auto simp: admissible_def)
  from r(1) edges_mono[OF le] have "(q, r) \<in> (edges s')\<^sup>*"
    using rtrancl_mono[of "edges s" "edges s'"] by blast
  with r(2) True show ?thesis by (auto simp: admissible_def own_changed_cong[OF k])
next
  case False
  with a have u: "unchanged env s q" and g: "s_graph s q \<noteq> None"
    and c: "nocycle s q \<longrightarrow>
      (\<forall>r. (q, r) \<in> (edges s)\<^sup>* \<longrightarrow> unchanged env s r \<and> s_graph s r \<noteq> None)"
    by (simp_all add: admissible_def)
  have dom: "s_graph s' r \<noteq> None" if "s_graph s r \<noteq> None" for r
    using that le by (auto simp: map_le_def dom_def)
  have "unchanged env s' r \<and> s_graph s' r \<noteq> None"
    if nc: "nocycle s' q" and r: "(q, r) \<in> (edges s')\<^sup>*" for r
  proof -
    from nocycle_mono[OF edges_mono[OF le] nc] c
    have cl: "\<forall>r. (q, r) \<in> (edges s)\<^sup>* \<longrightarrow> unchanged env s r \<and> s_graph s r \<noteq> None" by simp
    then have "\<forall>r. (q, r) \<in> (edges s)\<^sup>* \<longrightarrow> s_graph s r \<noteq> None" by simp
    from closed_reach[OF le this r] cl have "unchanged env s r" "s_graph s r \<noteq> None" by simp_all
    with dom show ?thesis by (simp add: unchanged_cong[OF k])
  qed
  with u dom[OF g] False show ?thesis by (simp add: admissible_def unchanged_cong[OF k])
qed

lemma admissible_cong:
  assumes "s_graph s' = s_graph s" "s_known_hashes s' = s_known_hashes s"
  shows "admissible env s' q v = admissible env s q v"
  using admissible_grows[of s s' env q v] admissible_grows[of s' s env q v] assms
  by auto

lemma justified_grows:
  assumes "justified env s" "grows s s'" "s_file_status s' = s_file_status s"
    "sound_tables env s'"
  shows "justified env s'"
  using assms admissible_grows[of s s' env]
  by (auto simp: justified_def grows_def)

lemma justified_updateGraph:
  assumes "justified env s" "updateGraph fuel env p s = Some out"
  shows "justified env (state_of out)"
proof (rule justified_grows[OF assms(1)])
  show "grows s (state_of out)" by (rule updateGraph_grows[OF assms(2)])
  show "s_file_status (state_of out) = s_file_status s" by (rule updateGraph_file_status[OF assms(2)])
  from assms(1) have "sound_tables env s" by (simp add: justified_def)
  then show "sound_tables env (state_of out)" by (rule sound_tables_updateGraph[OF _ assms(2)])
qed

lemma fileChanged_result:
  assumes "sound_tables env s" "fileChanged env p s = Return v s1"
  shows "if v then own_changed env s p else unchanged env s p"
  using assms
  by (auto simp: fileChanged_eq current_hash_def sound_tables_def own_changed_def unchanged_def
      split: option.splits)

lemma dependenciesChanged_admissible:
  assumes j: "justified env s0" and dc: "dependenciesChanged fuel env p [] s0 = Some out"
  shows "justified env (state_of out) \<and> (\<forall>v s'. out = Return v s' \<longrightarrow> admissible env s' p v)"
proof -
  define I where "I s' \<longleftrightarrow> s_graph s' = s_graph s0 \<and> s_known_hashes s' = s_known_hashes s0 \<and>
      sound_tables env s' \<and> (\<forall>q v. s_file_status s' q = Some v \<longrightarrow> admissible env s0 q v)"
    for s' :: state
  define PP where "PP ps q \<longleftrightarrow> (\<forall>a\<in>set ps. (a, q) \<in> (edges s0)\<^sup>*)" for ps :: "path list" and q
  define V where "V = admissible env s0"
  have fc: "I (state_of (fileChanged env q s))" if "I s" for q s
    using that fileChanged_frame[of env q s] sound_tables_fileChanged[of env s q]
    by (simp add: I_def)
  have memo: "I (s\<lparr>s_file_status := (s_file_status s)(q \<mapsto> v)\<rparr>)" if "I s" "V q v" for q v s
    using that by (simp add: I_def V_def sound_tables_def)
  have hit: "V q v" if "I s" "s_file_status s q = Some v" for q v s
    using that by (simp add: I_def V_def)
  have res: "if v then own_changed env s0 q else unchanged env s0 q"
    if "I s" "fileChanged env q s = Return v s1" for q v s s1
    using fileChanged_result[of env s q v s1] that
      own_changed_cong[of s s0 env q] unchanged_cong[of s s0 env q]
    by (simp add: I_def split: if_splits)
  have own: "V q True" if "I s" "fileChanged env q s = Return True s1" for q s s1
    using res[OF that] by (auto simp: V_def admissible_def)
  have edge: "s_graph s0 q = Some cs"
    if "I s" "fileChanged env q s = Return False s1" "s_graph s1 q = Some cs" for q s s1 cs
    using that fileChanged_frame[of env q s] by (simp add: I_def)
  have down: "PP (ps @ [q]) f"
    if "I s" "PP ps q" "fileChanged env q s = Return False s1" "s_graph s1 q = Some cs"
      "f \<in> set cs" "f \<notin> set (ps @ [q])" for q ps s s1 cs f
  proof -
    from edge[OF that(1,3,4)] that(5) have e: "(q, f) \<in> edges s0" by (auto simp: edges_def)
    with that(2) show ?thesis
      by (auto simp: PP_def intro: rtrancl_into_rtrancl)
  qed
  have up: "V q v"
    if i: "I s" and pp: "PP ps q" and fcF: "fileChanged env q s = Return False s1"
      and g: "s_graph s1 q = Some cs"
      and ch: "if v then \<exists>f\<in>set cs. f \<notin> set (ps @ [q]) \<and> V f True
               else \<forall>f\<in>set cs. f \<notin> set (ps @ [q]) \<longrightarrow> V f False"
    for q ps s s1 cs v
  proof (cases v)
    case True
    with ch obtain f r where f: "f \<in> set cs" and r: "(f, r) \<in> (edges s0)\<^sup>*" "own_changed env s0 r"
      by (auto simp: V_def admissible_def)
    from edge[OF i fcF g] f have "(q, f) \<in> edges s0" by (auto simp: edges_def)
    from this r(1) have "(q, r) \<in> (edges s0)\<^sup>*" by (rule converse_rtrancl_into_rtrancl)
    with r(2) True show ?thesis by (auto simp: V_def admissible_def)
  next
    case False
    note g0 = edge[OF i fcF g]
    from res[OF i fcF] have u: "unchanged env s0 q" by simp
    have "unchanged env s0 r \<and> s_graph s0 r \<noteq> None"
      if nc: "nocycle s0 q" and r: "(q, r) \<in> (edges s0)\<^sup>*" for r
      using r
    proof (cases rule: converse_rtranclE)
      case base
      with u g0 show ?thesis by simp
    next
      case (step f)
      from step(1) g0 have f: "f \<in> set cs" by (auto simp: edges_def)
      from nc have nq: "(q, q) \<notin> (edges s0)\<^sup>+" by (auto simp: nocycle_def)
      have "f \<notin> set (ps @ [q])"
      proof
        assume "f \<in> set (ps @ [q])"
        then have "(f, q) \<in> (edges s0)\<^sup>*" using pp by (auto simp: PP_def)
        with step(1) have "(q, q) \<in> (edges s0)\<^sup>+" by (rule rtrancl_into_trancl2)
        with nq show False by simp
      qed
      with ch False f have vf: "V f False" by simp
      have "nocycle s0 f"
        unfolding nocycle_def
      proof (intro allI impI)
        fix x assume "(f, x) \<in> (edges s0)\<^sup>*"
        with step(1) have "(q, x) \<in> (edges s0)\<^sup>*" by (rule converse_rtrancl_into_rtrancl)
        with nc show "(x, x) \<notin> (edges s0)\<^sup>+" by (simp add: nocycle_def)
      qed
      with vf step(2) show ?thesis by (simp add: V_def admissible_def)
    qed
    with u g0 False show ?thesis by (simp add: V_def admissible_def)
  qed
  have i0: "I s0" using j by (simp add: I_def justified_def)
  have pp0: "PP [] p" by (simp add: PP_def)
  from dependenciesChanged_verdicts[where I=I and V=V and PP=PP and env=env,
      OF fc memo hit own down up i0 pp0 dc]
  have r: "I (state_of out)" "\<forall>v s'. out = Return v s' \<longrightarrow> V p v" by simp_all
  from r(1) have eq: "s_graph (state_of out) = s_graph s0"
      "s_known_hashes (state_of out) = s_known_hashes s0"
    by (simp_all add: I_def)
  from r(1) have "justified env (state_of out)"
    by (simp add: justified_def I_def admissible_cong[OF eq])
  moreover have "admissible env s' p v" if "out = Return v s'" for v s'
    using r(2) that eq by (simp add: V_def admissible_cong[of s' s0])
  ultimately show ?thesis by blast
qed

lemma justified_started: "justified env (started env)"
proof -
  have "s_file_status (started env) = Map.empty"
    by (simp add: started_def configure_def initial_def split: cache_file.splits option.splits)
  with sound_tables_started[of env] show ?thesis by (simp add: justified_def)
qed

lemma justified_run:
  assumes "run env evs (started env) = Some s"
  shows "justified env s"
proof (rule run_invariant[of "justified env" env, OF _ _ _ justified_started assms])
  show "justified env (state_of out)" if "justified env s1" "updateGraph fuel env p s1 = Some out"
    for fuel p s1 out
    using that by (rule justified_updateGraph)
  show "justified env (state_of out)"
    if "justified env s1" "dependenciesChanged fuel env p [] s1 = Some out" for fuel p s1 out
    using dependenciesChanged_admissible[OF that] by simp
  show "justified env (afterTest t s1)" if "justified env s1" for t s1
  proof -
    have "s_graph (afterTest t s1) = s_graph s1" "s_known_hashes (afterTest t s1) = s_known_hashes s1"
      "s_file_status (afterTest t s1) = s_file_status s1" "s_hashes (afterTest t s1) = s_hashes s1"
      by (simp_all add: afterTest_def)
    with that show ?thesis
      by (simp add: justified_def sound_tables_def admissible_cong[of "afterTest t s1" s1])
  qed
qed


lemma query_admissible:
  assumes j: "justified env s" and u: "getsourcefile env u = Inr (Some source)"
    and q: "wantModule fuel env u s = Some (Return a s') \<or>
            wantClass fuel env u s = Some (Return a s')"
  shows "admissible env s' source (a \<noteq> Some False)"
proof -
  from q u have q': "wantModule fuel env u s = Some (Return a s')"
    by (simp add: wantModule_def wantClass_def)
  with u obtain o1 where o1: "updateGraph fuel env source s = Some o1"
    by (auto simp: wantModule_def split: option.splits)
  with q' u obtain u1 s1 where r1: "o1 = Return u1 s1"
    by (cases o1) (auto simp: wantModule_def)
  from q' u o1 r1 obtain o2 where o2: "dependenciesChanged fuel env source [] s1 = Some o2"
    by (auto simp: wantModule_def split: option.splits)
  with q' u o1 r1 obtain changed where r2: "o2 = Return changed s'"
    and a: "a = (if \<not> changed then Some False else None)"
    by (cases o2) (auto simp: wantModule_def)
  from justified_updateGraph[OF j o1] r1 have "justified env s1" by simp
  from dependenciesChanged_admissible[OF this o2] r2 have "admissible env s' source changed"
    by simp
  with a show ?thesis by (cases changed) simp_all
qed

lemma builtin_env_fields:
  "file_md5 builtin_env = [''a.py'' \<mapsto> ''11'']"
  "getsourcefile builtin_env (Module ''sys'') = Inl TypeError"
  "getsourcefile builtin_env (Class ''int'') = Inl TypeError"
  "getsourcefile builtin_env (Module ''a'') = Inr (Some ''a.py'')"
  "stored_cache builtin_env = stored_cache leaf_env"
  by (simp_all add: builtin_env_def leaf_env_fields)

lemma started_builtin: "started builtin_env = started leaf_env"
  by (simp add: started_def configure_def builtin_env_fields)

lemma closure_env_fields:
  "file_md5 closure_env = [''a.py'' \<mapsto> ''11'', ''b.py'' \<mapsto> ''22'', ''c.py'' \<mapsto> ''34'']"
  "find_dependencies closure_env ''c.py'' = Found []"
  "getsourcefile closure_env =
     (\<lambda>u. Inr ([Module ''a'' \<mapsto> ''a.py'', Module ''b'' \<mapsto> ''b.py''] u))"
  "stored_cache closure_env =
     Loaded (Some [''a.py'' \<mapsto> ''11'', ''b.py'' \<mapsto> ''22'', ''c.py'' \<mapsto> ''33''])
            (Some [''a.py'' \<mapsto> [''b.py'', ''c.py''], ''b.py'' \<mapsto> [''a.py''], ''c.py'' \<mapsto> []])"
  by (simp_all add: closure_env_def disk_def fun_eq_iff)

lemma started_closure:
  "started closure_env =
     initial\<lparr>s_known_hashes := [''a.py'' \<mapsto> ''11'', ''b.py'' \<mapsto> ''22'', ''c.py'' \<mapsto> ''33''],
             s_known_graph := [''a.py'' \<mapsto> [''b.py'', ''c.py''], ''b.py'' \<mapsto> [''a.py''],
                               ''c.py'' \<mapsto> []]\<rparr>"
  by (simp add: started_def configure_def closure_env_fields)

lemma closure_query_a:
  "wantModule (Suc (Suc (Suc 0))) closure_env (Module ''a'') (started closure_env) =
     Some (Return None closure_after_a)"
  unfolding started_closure
  by (simp add: wantModule_def closure_env_fields initial_def closure_after_a_def
      updateGraph.simps dependenciesChanged.simps fileChanged_def file_hash_def differs_def
      inspectDependencies_def)

lemma closure_query_b_first:
  "returned (wantModule (Suc (Suc (Suc 0))) closure_env (Module ''b'') (started closure_env)) =
     Some None"
  unfolding started_closure
  by (simp add: wantModule_def closure_env_fields initial_def
      updateGraph.simps dependenciesChanged.simps fileChanged_def file_hash_def differs_def
      inspectDependencies_def)

lemma closure_query_b_second:
  "wantModule (Suc (Suc (Suc 0))) closure_env (Module ''b'') closure_after_a =
     Some (Return (Some False) closure_after_a)"
  by (simp add: wantModule_def closure_env_fields initial_def closure_after_a_def
      updateGraph.simps dependenciesChanged.simps)

lemma closure_reach:
  "(''b.py'', ''c.py'') \<in> (edges closure_after_a)\<^sup>*"
proof -
  have "(''b.py'', ''a.py'') \<in> edges closure_after_a" "(''a.py'', ''c.py'') \<in> edges closure_after_a"
    by (simp_all add: edges_def closure_after_a_def initial_def)
  then show ?thesis by (meson r_into_rtrancl rtrancl_trans)
qed

lemma closure_c_changed: "own_changed closure_env closure_after_a ''c.py''"
  by (simp add: own_changed_def differs_def closure_env_fields closure_after_a_def initial_def)

lemma nocycle_leaf: "nocycle leaf_after_a ''a.py''"
proof -
  have "edges leaf_after_a = {}" by (auto simp: edges_def leaf_after_a_def initial_def)
  then show ?thesis by (simp add: nocycle_def)
qed

text \<open>
  C8, as the code has it. A unit for which the lookup returns \<^verbatim>\<open>None\<close> gets
  \<^verbatim>\<open>None\<close> from an untouched state, and a unit for which the lookup raises (a built-in
  module or class) gets that exception. A unit with a source file gets \<^verbatim>\<open>False\<close>
  (skip it) when the verdict for its source is "unchanged", and \<^verbatim>\<open>None\<close>, the answer
  of the unit without a source file, when the verdict is "changed"; it gets no answer
  when the verdict is not reached. At every state of a run the answers say this about the
  dependency closure of the source, the files reachable from it in the graph the query
  leaves: \<^verbatim>\<open>None\<close> is answered only when a file of the closure changed, and
  \<^verbatim>\<open>False\<close> only when the source itself is unchanged and, if no file of the closure
  lies on a cycle of the graph, every file of the closure is unchanged.
\<close>

theorem want_value:
  "(getsourcefile env u = Inr None \<longrightarrow>
      wantModule fuel env u s = Some (Return None s) \<and>
      wantClass fuel env u s = Some (Return None s)) \<and>
   (getsourcefile env u = Inl e \<longrightarrow>
      wantModule fuel env u s = Some (Raise e s) \<and>
      wantClass fuel env u s = Some (Raise e s)) \<and>
   (getsourcefile env u = Inr (Some source) \<longrightarrow>
      returned (wantModule fuel env u s) =
        map_option (\<lambda>changed. if changed then None else Some False) (verdict fuel env source s) \<and>
      returned (wantClass fuel env u s) =
        map_option (\<lambda>changed. if changed then None else Some False) (verdict fuel env source s) \<and>
      (run env evs (started env) = Some s \<longrightarrow>
         (wantModule fuel env u s = Some (Return None s') \<or>
          wantClass fuel env u s = Some (Return None s') \<longrightarrow>
            (\<exists>r. (source, r) \<in> (edges s')\<^sup>* \<and> own_changed env s' r)) \<and>
         (wantModule fuel env u s = Some (Return (Some False) s') \<or>
          wantClass fuel env u s = Some (Return (Some False) s') \<longrightarrow>
            unchanged env s' source \<and>
            (nocycle s' source \<longrightarrow>
               (\<forall>r. (source, r) \<in> (edges s')\<^sup>* \<longrightarrow> unchanged env s' r)))))"
proof (intro conjI impI)
  assume "getsourcefile env u = Inr None"
  then show "wantModule fuel env u s = Some (Return None s)"
    and "wantClass fuel env u s = Some (Return None s)"
    using want_returned[of env u fuel s source e] by simp_all
next
  assume "getsourcefile env u = Inl e"
  then show "wantModule fuel env u s = Some (Raise e s)"
    and "wantClass fuel env u s = Some (Raise e s)"
    using want_returned[of env u fuel s source e] by simp_all
next
  assume u: "getsourcefile env u = Inr (Some source)"
  then show "returned (wantModule fuel env u s) =
        map_option (\<lambda>changed. if changed then None else Some False) (verdict fuel env source s)"
    and "returned (wantClass fuel env u s) =
        map_option (\<lambda>changed. if changed then None else Some False) (verdict fuel env source s)"
    using want_returned[of env u fuel s source e] by simp_all
  assume "run env evs (started env) = Some s"
  then have j: "justified env s" by (rule justified_run)
  {
    assume "wantModule fuel env u s = Some (Return None s') \<or>
          wantClass fuel env u s = Some (Return None s')"
    from query_admissible[OF j u this]
    show "\<exists>r. (source, r) \<in> (edges s')\<^sup>* \<and> own_changed env s' r"
      by (simp add: admissible_def)
  }
  assume "wantModule fuel env u s = Some (Return (Some False) s') \<or>
          wantClass fuel env u s = Some (Return (Some False) s')"
  from query_admissible[OF j u this]
  have a: "admissible env s' source False" by simp
  then show "unchanged env s' source" by (simp add: admissible_def)
  assume "nocycle s' source"
  with a show "\<forall>r. (source, r) \<in> (edges s')\<^sup>* \<longrightarrow> unchanged env s' r"
    by (simp add: admissible_def)
qed

theorem want_value_witness:
  "wantModule 3 chain_env (Class ''Nowhere'') (started chain_env) =
     Some (Return None (started chain_env)) \<and>
   wantClass 2 builtin_env (Class ''int'') (started builtin_env) =
     Some (Raise TypeError (started builtin_env)) \<and>
   returned (wantModule 2 leaf_env (Module ''a'') (started leaf_env)) = Some (Some False) \<and>
   returned (wantClass 3 chain_env (Module ''a'') (started chain_env)) = Some None \<and>
   wantModule (Suc 0) leaf_env (Module ''a'') (started leaf_env) =
     Some (Return (Some False) leaf_after_a) \<and>
   unchanged leaf_env leaf_after_a ''a.py'' \<and>
   wantModule (Suc (Suc (Suc 0))) chain_env (Module ''a'') (started chain_env) =
     Some (Return None chain_after_a) \<and>
   (\<exists>r. (''a.py'', r) \<in> (edges chain_after_a)\<^sup>* \<and> own_changed chain_env chain_after_a r)"
proof -
  have r1: "run leaf_env [] (started leaf_env) = Some (started leaf_env)"
    and r2: "run chain_env [] (started chain_env) = Some (started chain_env)"
    by simp_all
  show ?thesis
  using want_value [of chain_env "Class ''Nowhere''" 3 "started chain_env" TypeError "''a.py''" "[]"
      "started chain_env"]
    want_value [of builtin_env "Class ''int''" 2 "started builtin_env" TypeError "''a.py''" "[]"
      "started builtin_env"]
    want_value [of leaf_env "Module ''a''" 2 "started leaf_env" TypeError "''a.py''" "[]"
      "started leaf_env"]
    want_value [of chain_env "Module ''a''" 3 "started chain_env" TypeError "''a.py''" "[]"
      "started chain_env"]
    want_value [of leaf_env "Module ''a''" "Suc 0" "started leaf_env" TypeError "''a.py''" "[]"
      leaf_after_a]
    want_value [of chain_env "Module ''a''" "Suc (Suc (Suc 0))" "started chain_env" TypeError
      "''a.py''" "[]" chain_after_a]
    r1 r2 nocycle_leaf
  by (simp add: verdict_leaf verdict_chain leaf_env_fields chain_env_fields builtin_env_fields
      leaf_query_a chain_query_a)
qed

text \<open>
  Counterexample to C8 as the claim has it; it fails three times. For the unchanged
  \<open>a.py\<close> of the leaf scenario the verdict is "unchanged" and the query answers
  \<^verbatim>\<open>False\<close>, not the negation of the verdict; for the \<open>a.py\<close> of the chain scenario
  the verdict is "changed" and the query answers \<^verbatim>\<open>None\<close>, the value it also gives a
  unit without source file, not a boolean. Where \<open>a.py\<close> imports \<open>b.py\<close> and
  \<open>c.py\<close>, \<open>b.py\<close> imports \<open>a.py\<close>, and only \<open>c.py\<close> changed, the query for
  \<open>b\<close> that follows the query for \<open>a\<close> answers \<^verbatim>\<open>False\<close> although \<open>c.py\<close> is in
  the closure of \<open>b.py\<close> and changed: the verdict of \<open>b.py\<close> was memoised while
  \<open>a.py\<close> was among the parents and so not asked. Asked first, the same query answers
  \<^verbatim>\<open>None\<close>. And a built-in module gets \<^verbatim>\<open>TypeError\<close>, not \<^verbatim>\<open>None\<close>.
\<close>

theorem want_value_counterexample:
  "verdict 2 leaf_env ''a.py'' (started leaf_env) = Some False \<and>
   returned (wantModule 2 leaf_env (Module ''a'') (started leaf_env)) \<noteq> Some (Some (\<not> False)) \<and>
   verdict 3 chain_env ''a.py'' (started chain_env) = Some True \<and>
   returned (wantModule 3 chain_env (Module ''a'') (started chain_env)) \<noteq> Some (Some (\<not> True)) \<and>
   returned (wantModule 3 chain_env (Module ''a'') (started chain_env)) =
     returned (wantModule 3 chain_env (Class ''Nowhere'') (started chain_env)) \<and>
   run closure_env [WantModule (Suc (Suc (Suc 0))) (Module ''a'')] (started closure_env) =
     Some closure_after_a \<and>
   wantModule (Suc (Suc (Suc 0))) closure_env (Module ''b'') closure_after_a =
     Some (Return (Some False) closure_after_a) \<and>
   s_graph closure_after_a ''b.py'' = Some [''a.py''] \<and>
   s_graph closure_after_a ''a.py'' = Some [''b.py'', ''c.py''] \<and>
   (''b.py'', ''c.py'') \<in> (edges closure_after_a)\<^sup>* \<and>
   own_changed closure_env closure_after_a ''c.py'' \<and>
   returned (wantModule (Suc (Suc (Suc 0))) closure_env (Module ''b'') (started closure_env)) =
     Some None \<and>
   wantModule 2 builtin_env (Module ''sys'') (started builtin_env) =
     Some (Raise TypeError (started builtin_env))"
proof -
  have enc: "verdict 2 leaf_env ''a.py'' (started leaf_env) = Some False \<and>
   returned (wantModule 2 leaf_env (Module ''a'') (started leaf_env)) \<noteq> Some (Some (\<not> False)) \<and>
   verdict 3 chain_env ''a.py'' (started chain_env) = Some True \<and>
   returned (wantModule 3 chain_env (Module ''a'') (started chain_env)) \<noteq> Some (Some (\<not> True)) \<and>
   returned (wantModule 3 chain_env (Module ''a'') (started chain_env)) =
     returned (wantModule 3 chain_env (Class ''Nowhere'') (started chain_env))"
    using want_returned [of chain_env "Class ''Nowhere''" 3 "started chain_env" "''a.py''"]
      want_returned [of leaf_env "Module ''a''" 2 "started leaf_env" "''a.py''"]
      want_returned [of chain_env "Module ''a''" 3 "started chain_env" "''a.py''"]
    by (simp add: verdict_leaf verdict_chain leaf_env_fields chain_env_fields)
  have run: "run closure_env [WantModule (Suc (Suc (Suc 0))) (Module ''a'')] (started closure_env) =
     Some closure_after_a"
    by (simp add: closure_query_a)
  have g: "s_graph closure_after_a ''b.py'' = Some [''a.py'']"
    "s_graph closure_after_a ''a.py'' = Some [''b.py'', ''c.py'']"
    by (simp_all add: closure_after_a_def initial_def)
  have b: "wantModule 2 builtin_env (Module ''sys'') (started builtin_env) =
     Some (Raise TypeError (started builtin_env))"
    by (simp add: wantModule_def builtin_env_fields)
  from enc run g b closure_query_b_second closure_reach closure_c_changed closure_query_b_first
  show ?thesis by blast
qed

section \<open>The two queries are one\<close>

text \<open>
  C10, as the code has it. \<^verbatim>\<open>wantModule\<close> and \<^verbatim>\<open>wantClass\<close> are the same function
  of what the lookup of the source file gives: two units for which it ends the same way
  get the same answer and leave the same state from the same state, also when the answer
  is an exception; a unit for which the lookup returns \<^verbatim>\<open>None\<close> gets \<^verbatim>\<open>None\<close> from
  an untouched state; and a unit for which the lookup raises gets that exception from an
  untouched state.
\<close>

theorem want_equiv:
  "(getsourcefile env m = getsourcefile env cls \<longrightarrow>
      wantModule fuel env m s = wantClass fuel env cls s) \<and>
   (getsourcefile env m = Inr None \<longrightarrow> wantModule fuel env m s = Some (Return None s)) \<and>
   (getsourcefile env cls = Inr None \<longrightarrow> wantClass fuel env cls s = Some (Return None s)) \<and>
   (getsourcefile env m = Inl e \<longrightarrow> wantModule fuel env m s = Some (Raise e s)) \<and>
   (getsourcefile env cls = Inl e \<longrightarrow> wantClass fuel env cls s = Some (Raise e s))"
  by (simp add: wantModule_def wantClass_def)

theorem want_equiv_witness:
  "wantModule 2 leaf_env (Module ''a'') (started leaf_env) =
     wantClass 2 leaf_env (Class ''A'') (started leaf_env) \<and>
   wantModule 2 leaf_env (Module ''zz'') (started leaf_env) =
     Some (Return None (started leaf_env)) \<and>
   wantClass 2 leaf_env (Class ''ZZ'') (started leaf_env) =
     Some (Return None (started leaf_env)) \<and>
   wantModule 2 builtin_env (Module ''sys'') (started builtin_env) =
     Some (Raise TypeError (started builtin_env)) \<and>
   wantClass 2 builtin_env (Class ''int'') (started builtin_env) =
     Some (Raise TypeError (started builtin_env))"
  using want_equiv [of leaf_env "Module ''a''" "Class ''A''" 2 "started leaf_env" TypeError]
    want_equiv [of leaf_env "Module ''zz''" "Class ''ZZ''" 2 "started leaf_env" TypeError]
    want_equiv [of builtin_env "Module ''sys''" "Class ''int''" 2 "started builtin_env" TypeError]
  by (simp add: leaf_env_fields builtin_env_fields)

text \<open>
  Counterexample to C10 as the claim has it: a built-in module and a built-in class have
  no source location, and the queries raise \<^verbatim>\<open>TypeError\<close> where the claim has them
  answer \<^verbatim>\<open>None\<close>.
\<close>

theorem want_equiv_counterexample:
  "getsourcefile builtin_env (Module ''sys'') = Inl TypeError \<and>
   getsourcefile builtin_env (Class ''int'') = Inl TypeError \<and>
   wantModule 2 builtin_env (Module ''sys'') (started builtin_env) \<noteq>
     Some (Return None (started builtin_env)) \<and>
   wantClass 2 builtin_env (Class ''int'') (started builtin_env) \<noteq>
     Some (Return None (started builtin_env)) \<and>
   wantModule 2 builtin_env (Module ''sys'') (started builtin_env) =
     Some (Raise TypeError (started builtin_env)) \<and>
   wantClass 2 builtin_env (Class ''int'') (started builtin_env) =
     Some (Raise TypeError (started builtin_env))"
  by (simp add: wantModule_def wantClass_def builtin_env_fields)

end
